theory Spec2Isabelle
  imports Main "HOL-Library.Word"
begin

unbundle bit_operations_syntax

section \<open>Page-table entries (thor/kernel/src/arch/x86/paging.cpp)\<close>

type_synonym u64 = "64 word"
type_synonym u32 = "32 word"

text \<open>The anonymous enum of PTE attribute bits.\<close>

definition kPagePresent :: u64 where "kPagePresent = 0x1"
definition kPageWrite :: u64 where "kPageWrite = 0x2"
definition kPageUser :: u64 where "kPageUser = 0x4"
definition kPagePwt :: u64 where "kPagePwt = 0x8"
definition kPagePcd :: u64 where "kPagePcd = 0x10"
definition kPagePat :: u64 where "kPagePat = 0x80"
definition kPageGlobal :: u64 where "kPageGlobal = 0x100"
definition kPageXd :: u64 where "kPageXd = 0x8000000000000000"

text \<open>The literal \<open>0x000FFFFFFFFFF000\<close> that extracts the next-level address.\<close>

definition kAddrMask :: u64 where "kAddrMask = 0x000FFFFFFFFFF000"

definition kPageSize :: u64 where "kPageSize = 0x1000"

text \<open>\<open>namespace page_access\<close> and the enums of paging.hpp.\<close>

definition page_access_write :: u32 where "page_access_write = 1"
definition page_access_execute :: u32 where "page_access_execute = 2"

datatype CachingMode = null | uncached | writeCombine | writeThrough | writeBack

datatype PageMode = mode_null | normal | remap

text \<open>
  A failed \<open>assert\<close> halts the kernel; the allocator may have no frame left.
  Both are results of the modelled functions, never silent.
\<close>

datatype fault = AssertFailed | OutOfMemory

section \<open>Physical memory and the frame allocator\<close>

text \<open>
  Physical memory as the page-table code sees it: an array of 512 64-bit entries
  behind every frame base address (\<open>region.access(frame)[index]\<close>,
  \<open>PageAccessor{frame}.get()[index]\<close>). \<open>SkeletalRegion::access\<close> is not
  among the sources; it is taken to give access to the frame, with no check of
  its own.

  Modelled from the spec: the physical allocator (\<open>SkeletalRegion::allocate\<close>,
  \<open>physicalAllocator->allocate\<close>) is not part of the sources. The spec says
  \<open>allocate(size)\<close> returns a frame address and that exhaustion propagates as an
  allocator failure; here the allocator is the list of frames it will hand out
  next, and an empty list is the failure.
\<close>

record machine =
  mem :: "u64 \<Rightarrow> nat \<Rightarrow> u64"
  free_frames :: "u64 list"

definition allocate :: "machine \<Rightarrow> fault + (machine \<times> u64)" where
  "allocate s =
     (case free_frames s of
        [] \<Rightarrow> Inl OutOfMemory
      | page # rest \<Rightarrow> Inr (s\<lparr>free_frames := rest\<rparr>, page))"

definition load :: "machine \<Rightarrow> u64 \<Rightarrow> nat \<Rightarrow> u64" where
  "load s tbl idx = mem s tbl idx"

definition store :: "machine \<Rightarrow> u64 \<Rightarrow> nat \<Rightarrow> u64 \<Rightarrow> machine" where
  "store s tbl idx v = s\<lparr>mem := (mem s)(tbl := (mem s tbl)(idx := v))\<rparr>"

text \<open>\<open>for(int i = 0; i < 512; i++) tbl[i] = 0;\<close> and \<open>memset(tbl, 0, kPageSize)\<close>.\<close>

definition zero_table :: "machine \<Rightarrow> u64 \<Rightarrow> machine" where
  "zero_table s tbl =
     s\<lparr>mem := (mem s)(tbl := (\<lambda>i. if i < 512 then 0 else mem s tbl i))\<rparr>"

text \<open>The four table indices of a virtual address.\<close>

definition index4 :: "u64 \<Rightarrow> nat" where
  "index4 pointer = unat (drop_bit 39 pointer AND 0x1FF)"
definition index3 :: "u64 \<Rightarrow> nat" where
  "index3 pointer = unat (drop_bit 30 pointer AND 0x1FF)"
definition index2 :: "u64 \<Rightarrow> nat" where
  "index2 pointer = unat (drop_bit 21 pointer AND 0x1FF)"
definition index1 :: "u64 \<Rightarrow> nat" where
  "index1 pointer = unat (drop_bit 12 pointer AND 0x1FF)"

section \<open>KernelPageSpace\<close>

text \<open>
  One level of the walk in \<open>KernelPageSpace::mapSingle4k\<close> (the source repeats
  this block for the PML4, the PDPT and the PD): follow a present entry, or
  allocate a zeroed table and link it with \<open>Present|Write\<close>; then assert that the
  entry has no \<open>User\<close> bit. Returns the next table.
\<close>

definition kernel_ensure_table :: "machine \<Rightarrow> u64 \<Rightarrow> nat \<Rightarrow> fault + (machine \<times> u64)" where
  "kernel_ensure_table s tbl idx =
     (let initial_entry = load s tbl idx;
          r = (if initial_entry AND kPagePresent \<noteq> 0
               then Inr (s, initial_entry AND kAddrMask)
               else (case allocate s of
                       Inl e \<Rightarrow> Inl e
                     | Inr (s1, page) \<Rightarrow>
                         Inr (store (zero_table s1 page) tbl idx
                                (page OR kPagePresent OR kPageWrite), page)))
      in case r of
           Inl e \<Rightarrow> Inl e
         | Inr (s', next_tbl) \<Rightarrow>
             if load s' tbl idx AND kPageUser \<noteq> 0 then Inl AssertFailed
             else Inr (s', next_tbl))"

text \<open>The cache-attribute chain shared by both \<open>mapSingle4k\<close> functions.\<close>

definition cache_bits :: "CachingMode \<Rightarrow> fault + u64" where
  "cache_bits caching_mode =
     (if caching_mode = writeThrough then Inr kPagePwt
      else if caching_mode = writeCombine then Inr (kPagePat OR kPagePwt)
      else if caching_mode = null \<or> caching_mode = writeBack then Inr 0
      else Inl AssertFailed)"

definition kernel_leaf_entry :: "u64 \<Rightarrow> u32 \<Rightarrow> CachingMode \<Rightarrow> fault + u64" where
  "kernel_leaf_entry physical flags caching_mode =
     (let e0 = physical OR kPagePresent OR kPageGlobal;
          e1 = (if flags AND page_access_write \<noteq> 0 then e0 OR kPageWrite else e0);
          e2 = (if flags AND page_access_execute = 0 then e1 OR kPageXd else e1)
      in case cache_bits caching_mode of
           Inl e \<Rightarrow> Inl e
         | Inr c \<Rightarrow> Inr (e2 OR c))"

definition kernel_mapSingle4k ::
  "machine \<Rightarrow> u64 \<Rightarrow> u64 \<Rightarrow> u64 \<Rightarrow> u32 \<Rightarrow> CachingMode \<Rightarrow> fault + machine" where
  "kernel_mapSingle4k s rootTable pointer physical flags caching_mode =
     (if pointer mod 0x1000 \<noteq> 0 then Inl AssertFailed
      else if physical mod 0x1000 \<noteq> 0 then Inl AssertFailed
      else case kernel_ensure_table s rootTable (index4 pointer) of
        Inl e \<Rightarrow> Inl e
      | Inr (s1, pdpt) \<Rightarrow>
      (case kernel_ensure_table s1 pdpt (index3 pointer) of
        Inl e \<Rightarrow> Inl e
      | Inr (s2, pd) \<Rightarrow>
      (case kernel_ensure_table s2 pd (index2 pointer) of
        Inl e \<Rightarrow> Inl e
      | Inr (s3, pt) \<Rightarrow>
          if load s3 pt (index1 pointer) AND kPagePresent \<noteq> 0 then Inl AssertFailed
          else (case kernel_leaf_entry physical flags caching_mode of
                  Inl e \<Rightarrow> Inl e
                | Inr new_entry \<Rightarrow> Inr (store s3 pt (index1 pointer) new_entry)))))"

text \<open>
  \<open>KernelPageSpace::unmapSingle4k\<close>: every level must be present; the leaf's
  Present bit is flipped and the address field of the result is returned.
\<close>

definition kernel_unmapSingle4k :: "machine \<Rightarrow> u64 \<Rightarrow> u64 \<Rightarrow> fault + (machine \<times> u64)" where
  "kernel_unmapSingle4k s rootTable pointer =
     (if pointer mod 0x1000 \<noteq> 0 then Inl AssertFailed
      else let pml4_entry = load s rootTable (index4 pointer) in
        if pml4_entry AND kPagePresent = 0 then Inl AssertFailed
      else let pdpt_entry = load s (pml4_entry AND kAddrMask) (index3 pointer) in
        if pdpt_entry AND kPagePresent = 0 then Inl AssertFailed
      else let pd_entry = load s (pdpt_entry AND kAddrMask) (index2 pointer) in
        if pd_entry AND kPagePresent = 0 then Inl AssertFailed
      else let pt = pd_entry AND kAddrMask in
        if load s pt (index1 pointer) AND kPagePresent = 0 then Inl AssertFailed
      else let s' = store s pt (index1 pointer)
                      (load s pt (index1 pointer) XOR kPagePresent)
           in Inr (s', load s' pt (index1 pointer) AND kAddrMask))"

section \<open>ClientPageSpace\<close>

text \<open>
  \<open>PageAccessor(physical)\<close> (paging.hpp): asserts that the frame is page-aligned
  and lies inside the identity window, and yields access to it.
\<close>

definition PageAccessor :: "u64 \<Rightarrow> fault + u64" where
  "PageAccessor physical =
     (if physical AND (kPageSize - 1) \<noteq> 0 then Inl AssertFailed
      else if \<not> physical < 0x400000000000 then Inl AssertFailed
      else Inr physical)"

text \<open>
  One level of the walk in \<open>ClientPageSpace::mapSingle4k\<close>: follow a present
  entry through a \<open>PageAccessor\<close>, or allocate, zero and link a table (with
  \<open>User\<close> when \<open>user_page\<close>); then assert that the entry's \<open>User\<close> bit agrees
  with \<open>user_page\<close>.
\<close>

definition client_ensure_table ::
  "machine \<Rightarrow> u64 \<Rightarrow> nat \<Rightarrow> bool \<Rightarrow> fault + (machine \<times> u64)" where
  "client_ensure_table s tbl idx user_page =
     (let r = (if load s tbl idx AND kPagePresent \<noteq> 0
               then (case PageAccessor (load s tbl idx AND kAddrMask) of
                       Inl e \<Rightarrow> Inl e
                     | Inr next_tbl \<Rightarrow> Inr (s, next_tbl))
               else (case allocate s of
                       Inl e \<Rightarrow> Inl e
                     | Inr (s1, tbl_address) \<Rightarrow>
                        (case PageAccessor tbl_address of
                           Inl e \<Rightarrow> Inl e
                         | Inr next_tbl \<Rightarrow>
                             let new_entry = tbl_address OR kPagePresent OR kPageWrite;
                                 new_entry = (if user_page then new_entry OR kPageUser
                                              else new_entry)
                             in Inr (store (zero_table s1 next_tbl) tbl idx new_entry,
                                     next_tbl))))
      in case r of
           Inl e \<Rightarrow> Inl e
         | Inr (s', next_tbl) \<Rightarrow>
             if (if user_page then load s' tbl idx AND kPageUser \<noteq> 0
                 else load s' tbl idx AND kPageUser = 0)
             then Inr (s', next_tbl)
             else Inl AssertFailed)"

definition client_leaf_entry :: "u64 \<Rightarrow> bool \<Rightarrow> u32 \<Rightarrow> CachingMode \<Rightarrow> fault + u64" where
  "client_leaf_entry physical user_page flags caching_mode =
     (let e0 = physical OR kPagePresent;
          e1 = (if user_page then e0 OR kPageUser else e0);
          e2 = (if flags AND page_access_write \<noteq> 0 then e1 OR kPageWrite else e1);
          e3 = (if flags AND page_access_execute = 0 then e2 OR kPageXd else e2)
      in case cache_bits caching_mode of
           Inl e \<Rightarrow> Inl e
         | Inr c \<Rightarrow> Inr (e3 OR c))"

definition client_mapSingle4k ::
  "machine \<Rightarrow> u64 \<Rightarrow> u64 \<Rightarrow> u64 \<Rightarrow> bool \<Rightarrow> u32 \<Rightarrow> CachingMode \<Rightarrow> fault + machine" where
  "client_mapSingle4k s rootTable pointer physical user_page flags caching_mode =
     (if pointer mod 0x1000 \<noteq> 0 then Inl AssertFailed
      else if physical mod 0x1000 \<noteq> 0 then Inl AssertFailed
      else case PageAccessor rootTable of
        Inl e \<Rightarrow> Inl e
      | Inr tbl4 \<Rightarrow>
      (case client_ensure_table s tbl4 (index4 pointer) user_page of
        Inl e \<Rightarrow> Inl e
      | Inr (s1, tbl3) \<Rightarrow>
      (case client_ensure_table s1 tbl3 (index3 pointer) user_page of
        Inl e \<Rightarrow> Inl e
      | Inr (s2, tbl2) \<Rightarrow>
      (case client_ensure_table s2 tbl2 (index2 pointer) user_page of
        Inl e \<Rightarrow> Inl e
      | Inr (s3, tbl1) \<Rightarrow>
          if load s3 tbl1 (index1 pointer) AND kPagePresent \<noteq> 0 then Inl AssertFailed
          else (case client_leaf_entry physical user_page flags caching_mode of
                  Inl e \<Rightarrow> Inl e
                | Inr new_entry \<Rightarrow> Inr (store s3 tbl1 (index1 pointer) new_entry))))))"

text \<open>
  \<open>ClientPageSpace::ClientPageSpace()\<close>: the root table is a newly allocated
  frame, reached through a \<open>PageAccessor\<close>. The first loop
  (\<open>for(size_t i = 0; i < 256; i++) tbl4[i].store(0)\<close>, here \<open>store_zeros\<close>)
  clears the lower half; the second (\<open>copy_kernel_entries\<close>) asserts that each
  entry of the upper half of the kernel's root table \<open>kernel_pml4\<close> is present
  and copies it. The result is the state and the new root table.
\<close>

fun store_zeros :: "machine \<Rightarrow> u64 \<Rightarrow> nat list \<Rightarrow> machine" where
  "store_zeros s tbl4 [] = s"
| "store_zeros s tbl4 (i # rest) = store_zeros (store s tbl4 i 0) tbl4 rest"

fun copy_kernel_entries :: "machine \<Rightarrow> u64 \<Rightarrow> u64 \<Rightarrow> nat list \<Rightarrow> fault + machine" where
  "copy_kernel_entries s kernel_pml4 tbl4 [] = Inr s"
| "copy_kernel_entries s kernel_pml4 tbl4 (i # rest) =
     (if load s kernel_pml4 i AND kPagePresent = 0 then Inl AssertFailed
      else copy_kernel_entries (store s tbl4 i (load s kernel_pml4 i)) kernel_pml4 tbl4 rest)"

definition new_ClientPageSpace :: "machine \<Rightarrow> u64 \<Rightarrow> fault + (machine \<times> u64)" where
  "new_ClientPageSpace s kernel_pml4 =
     (case allocate s of
        Inl e \<Rightarrow> Inl e
      | Inr (s1, root) \<Rightarrow>
        (case PageAccessor root of
           Inl e \<Rightarrow> Inl e
         | Inr tbl4 \<Rightarrow>
           (case copy_kernel_entries (store_zeros s1 tbl4 [0 ..< 256])
                   kernel_pml4 tbl4 [256 ..< 512] of
              Inl e \<Rightarrow> Inl e
            | Inr s2 \<Rightarrow> Inr (s2, root))))"

text \<open>
  The body of the loop of \<open>ClientPageSpace::unmapRange\<close> for the page at
  \<open>pointer + progress\<close> (here \<open>va\<close>); \<open>continue\<close> is the unchanged state.
\<close>

definition unmap_page :: "machine \<Rightarrow> u64 \<Rightarrow> u64 \<Rightarrow> PageMode \<Rightarrow> fault + machine" where
  "unmap_page s rootTable va mode =
     (case PageAccessor rootTable of
        Inl e \<Rightarrow> Inl e
      | Inr tbl4 \<Rightarrow>
        if mode = remap \<and> load s tbl4 (index4 va) AND kPagePresent = 0 then Inr s
        else if load s tbl4 (index4 va) AND kPagePresent = 0 then Inl AssertFailed
        else (case PageAccessor (load s tbl4 (index4 va) AND kAddrMask) of
        Inl e \<Rightarrow> Inl e
      | Inr tbl3 \<Rightarrow>
        if mode = remap \<and> load s tbl3 (index3 va) AND kPagePresent = 0 then Inr s
        else if load s tbl3 (index3 va) AND kPagePresent = 0 then Inl AssertFailed
        else (case PageAccessor (load s tbl3 (index3 va) AND kAddrMask) of
        Inl e \<Rightarrow> Inl e
      | Inr tbl2 \<Rightarrow>
        if mode = remap \<and> load s tbl2 (index2 va) AND kPagePresent = 0 then Inr s
        else if load s tbl2 (index2 va) AND kPagePresent = 0 then Inl AssertFailed
        else (case PageAccessor (load s tbl2 (index2 va) AND kAddrMask) of
        Inl e \<Rightarrow> Inl e
      | Inr tbl1 \<Rightarrow>
        if mode = remap \<and> load s tbl1 (index1 va) AND kPagePresent = 0 then Inr s
        else if load s tbl1 (index1 va) AND kPagePresent = 0 then Inl AssertFailed
        else Inr (store s tbl1 (index1 va)
                    (load s tbl1 (index1 va) AND NOT kPagePresent))))))"

fun unmapRange_loop ::
  "machine \<Rightarrow> u64 \<Rightarrow> u64 \<Rightarrow> PageMode \<Rightarrow> u64 list \<Rightarrow> fault + machine" where
  "unmapRange_loop s rootTable pointer mode [] = Inr s"
| "unmapRange_loop s rootTable pointer mode (progress # rest) =
     (case unmap_page s rootTable (pointer + progress) mode of
        Inl e \<Rightarrow> Inl e
      | Inr s' \<Rightarrow> unmapRange_loop s' rootTable pointer mode rest)"

text \<open>
  \<open>for(size_t progress = 0; progress < size; progress += kPageSize)\<close>: \<open>size\<close> has
  been asserted to be a multiple of the page size (\<open>sz\<close> below), so \<open>progress\<close> takes the values
  \<open>0, 0x1000, ...\<close> below \<open>size\<close>, one per page.
\<close>

definition progress_values :: "u64 \<Rightarrow> u64 list" where
  "progress_values sz = map (\<lambda>k. of_nat k * kPageSize) [0 ..< unat sz div 0x1000]"

definition unmapRange :: "machine \<Rightarrow> u64 \<Rightarrow> u64 \<Rightarrow> u64 \<Rightarrow> PageMode \<Rightarrow> fault + machine" where
  "unmapRange s rootTable pointer sz mode =
     (if pointer AND (kPageSize - 1) \<noteq> 0 then Inl AssertFailed
      else if sz AND (kPageSize - 1) \<noteq> 0 then Inl AssertFailed
      else unmapRange_loop s rootTable pointer mode (progress_values sz))"

definition isMapped :: "machine \<Rightarrow> u64 \<Rightarrow> u64 \<Rightarrow> fault + bool" where
  "isMapped s rootTable pointer =
     (if pointer AND (kPageSize - 1) \<noteq> 0 then Inl AssertFailed
      else case PageAccessor rootTable of
        Inl e \<Rightarrow> Inl e
      | Inr tbl4 \<Rightarrow>
        if load s tbl4 (index4 pointer) AND kPagePresent = 0 then Inr False
        else (case PageAccessor (load s tbl4 (index4 pointer) AND kAddrMask) of
        Inl e \<Rightarrow> Inl e
      | Inr tbl3 \<Rightarrow>
        if load s tbl3 (index3 pointer) AND kPagePresent = 0 then Inr False
        else (case PageAccessor (load s tbl3 (index3 pointer) AND kAddrMask) of
        Inl e \<Rightarrow> Inl e
      | Inr tbl2 \<Rightarrow>
        if load s tbl2 (index2 pointer) AND kPagePresent = 0 then Inr False
        else (case PageAccessor (load s tbl2 (index2 pointer) AND kAddrMask) of
        Inl e \<Rightarrow> Inl e
      | Inr tbl1 \<Rightarrow>
        Inr (load s tbl1 (index1 pointer) AND kPagePresent \<noteq> 0)))))"

text \<open>
  What the hardware walk finds for a virtual address: the leaf entry is reached
  through three present intermediate entries and is itself present.
\<close>

definition leaf_table :: "machine \<Rightarrow> u64 \<Rightarrow> u64 \<Rightarrow> u64" where
  "leaf_table s rootTable pointer =
     (let tbl3 = load s rootTable (index4 pointer) AND kAddrMask;
          tbl2 = load s tbl3 (index3 pointer) AND kAddrMask
      in load s tbl2 (index2 pointer) AND kAddrMask)"

definition leaf_present :: "machine \<Rightarrow> u64 \<Rightarrow> u64 \<Rightarrow> bool" where
  "leaf_present s rootTable pointer =
     (let e4 = load s rootTable (index4 pointer);
          e3 = load s (e4 AND kAddrMask) (index3 pointer);
          e2 = load s (e3 AND kAddrMask) (index2 pointer);
          e1 = load s (e2 AND kAddrMask) (index1 pointer)
      in e4 AND kPagePresent \<noteq> 0 \<and> e3 AND kPagePresent \<noteq> 0
         \<and> e2 AND kPagePresent \<noteq> 0 \<and> e1 AND kPagePresent \<noteq> 0)"

section \<open>PageSpace, PageBinding and PageContext\<close>

text \<open>
  The structs of paging.hpp. A \<open>ShootNode\<close> is known by its identity (the
  pointer handed to \<open>submitShootdown\<close>); the intrusive \<open>_shootQueue\<close> is the
  list of these identities, front first. Calling \<open>node->shotDown(node)\<close> is the
  event \<open>ShotDown\<close> of the trace.
\<close>

record ShootNode =
  address :: u64
  size_bytes :: u64
  sequence :: u64
  bindingsToShoot :: u32

record PageSpace =
  rootTable :: u64
  numBindings :: u32
  shootSequence :: u64
  shootQueue :: "nat list"

text \<open>
  \<open>_boundSpace\<close> is a weak pointer: \<open>None\<close> is the empty pointer, \<open>Some sp\<close>
  refers to space \<open>sp\<close>, which can be upgraded only while \<open>sp\<close> is alive.
\<close>

record PageBinding =
  pcid :: int
  boundSpace :: "nat option"
  wasRebound :: bool
  primaryStamp :: u64
  alreadyShotSequence :: u64

record PageContext =
  nextStamp :: u64
  primaryBinding :: "nat option"

definition maxPcidCount :: nat where "maxPcidCount = 8"

text \<open>
  The part of \<open>getCpuData()\<close> that paging uses: the capability flag, the
  \<open>PageContext\<close>, the array \<open>pcidBindings[maxPcidCount]\<close>, and whether
  interrupts are enabled (\<open>intsAreEnabled()\<close>).
\<close>

record CpuData =
  havePcids :: bool
  pageContext :: PageContext
  pcidBindings :: "nat \<Rightarrow> PageBinding"
  intsAreEnabled :: bool

datatype lock = IrqMutex | SpaceMutex nat

datatype event =
    Acquire lock
  | Release lock
  | InvalidatePcid int
  | InvalidatePage u64
  | InvalidatePagePcid int u64
  | WriteCr3 u64
  | ShootdownIpi
  | ShotDown nat

record kernel =
  spaces :: "nat \<Rightarrow> PageSpace"
  alive :: "nat \<Rightarrow> bool"
  nodes :: "nat \<Rightarrow> ShootNode"
  numCpus :: nat
  cpus :: "nat \<Rightarrow> CpuData"
  trace :: "event list"

text \<open>The constructors \<open>PageContext()\<close>, \<open>PageBinding()\<close> and \<open>PageSpace(root_table)\<close>.\<close>

definition new_PageContext :: PageContext where
  "new_PageContext = \<lparr>nextStamp = 1, primaryBinding = None\<rparr>"

definition new_PageBinding :: PageBinding where
  "new_PageBinding =
     \<lparr>pcid = 0, boundSpace = None, wasRebound = False,
      primaryStamp = 0, alreadyShotSequence = 0\<rparr>"

definition new_PageSpace :: "u64 \<Rightarrow> PageSpace" where
  "new_PageSpace root_table =
     \<lparr>rootTable = root_table, numBindings = 0, shootSequence = 0, shootQueue = []\<rparr>"

text \<open>\<open>WeakPtr::grab\<close>: a strong reference, or nothing when the space is gone.\<close>

definition grab :: "kernel \<Rightarrow> nat option \<Rightarrow> nat option" where
  "grab k w =
     (case w of
        None \<Rightarrow> None
      | Some sp \<Rightarrow> if alive k sp then Some sp else None)"

definition binding :: "kernel \<Rightarrow> nat \<Rightarrow> nat \<Rightarrow> PageBinding" where
  "binding k c b = pcidBindings (cpus k c) b"

definition set_binding :: "kernel \<Rightarrow> nat \<Rightarrow> nat \<Rightarrow> PageBinding \<Rightarrow> kernel" where
  "set_binding k c b v =
     k\<lparr>cpus := (cpus k)(c := (cpus k c)\<lparr>pcidBindings := (pcidBindings (cpus k c))(b := v)\<rparr>)\<rparr>"

definition set_space :: "kernel \<Rightarrow> nat \<Rightarrow> PageSpace \<Rightarrow> kernel" where
  "set_space k sp v = k\<lparr>spaces := (spaces k)(sp := v)\<rparr>"

definition emit :: "kernel \<Rightarrow> event list \<Rightarrow> kernel" where
  "emit k evs = k\<lparr>trace := trace k @ evs\<rparr>"

text \<open>
  \<open>PageBinding::makePrimary\<close> for binding \<open>b\<close> of CPU \<open>c\<close>. The C \<open>int\<close> \<open>_pcid\<close>
  is converted to 64 bits when it is or-ed into CR3.
\<close>

definition makePrimary :: "kernel \<Rightarrow> nat \<Rightarrow> nat \<Rightarrow> fault + kernel" where
  "makePrimary k c b =
     (let cpu = cpus k c; self = binding k c b; context = pageContext cpu in
      if intsAreEnabled cpu then Inl AssertFailed
      else if \<not> (havePcids cpu \<or> pcid self = 0) then Inl AssertFailed
      else
        (case (if wasRebound self \<or> primaryBinding context \<noteq> Some b
               then (case grab k (boundSpace self) of
                       None \<Rightarrow> Inl AssertFailed
                     | Some sp \<Rightarrow>
                         let cr3 = rootTable (spaces k sp) OR word_of_int (pcid self);
                             cr3 = (if havePcids cpu then cr3 OR push_bit 63 1 else cr3)
                         in Inr (emit k [WriteCr3 cr3]))
               else Inr k) of
           Inl e \<Rightarrow> Inl e
         | Inr k1 \<Rightarrow>
             let k2 = set_binding k1 c b
                        (self\<lparr>wasRebound := False, primaryStamp := nextStamp context\<rparr>)
             in Inr (k2\<lparr>cpus := (cpus k2)(c := (cpus k2 c)
                          \<lparr>pageContext := \<lparr>nextStamp = nextStamp context + 1,
                                           primaryBinding = Some b\<rparr>\<rparr>)\<rparr>)))"

text \<open>
  The backward scan of \<open>PageBinding::rebind\<close>. The third argument is the part
  of the queue not yet visited, last node first (\<open>current\<close> and its
  predecessors); \<open>kept\<close> are the visited nodes that stay linked and
  \<open>complete\<close> the unlinked ones, both in queue order. \<open>fetch_sub\<close> on the
  \<open>unsigned int\<close> counter wraps. The result is the node store, the queue and
  the \<open>complete\<close> list.
\<close>

fun rebind_scan ::
  "(nat \<Rightarrow> ShootNode) \<Rightarrow> u64 \<Rightarrow> nat list \<Rightarrow> nat list \<Rightarrow> nat list
     \<Rightarrow> (nat \<Rightarrow> ShootNode) \<times> nat list \<times> nat list" where
  "rebind_scan ns shot [] kept complete = (ns, kept, complete)"
| "rebind_scan ns shot (current # preds) kept complete =
     (if sequence (ns current) > shot
      then let old = bindingsToShoot (ns current);
               ns' = ns(current := (ns current)\<lparr>bindingsToShoot := old - 1\<rparr>)
           in if old = 1
              then rebind_scan ns' shot preds kept (current # complete)
              else rebind_scan ns' shot preds (current # kept) complete
      else (ns, rev (current # preds) @ kept, complete))"

definition rebind :: "kernel \<Rightarrow> nat \<Rightarrow> nat \<Rightarrow> nat \<Rightarrow> fault + kernel" where
  "rebind k c b space =
     (let cpu = cpus k c; self = binding k c b; unbound = grab k (boundSpace self) in
      if intsAreEnabled cpu then Inl AssertFailed
      else if unbound = Some space then Inr k
      else
        let k1 = (if havePcids cpu then emit k [InvalidatePcid (pcid self)] else k);
            k2 = set_binding k1 c b (self\<lparr>wasRebound := True\<rparr>);
            k3 = (case unbound of
                    None \<Rightarrow> k2
                  | Some u \<Rightarrow>
                      let old_space = spaces k2 u;
                          (ns, queue, complete) =
                             rebind_scan (nodes k2) (alreadyShotSequence self)
                               (rev (shootQueue old_space)) [] [];
                          k' = emit k2 [Acquire (SpaceMutex u)];
                          k' = k'\<lparr>nodes := ns\<rparr>;
                          k' = set_space k' u
                                 (old_space\<lparr>shootQueue := queue,
                                            numBindings := numBindings old_space - 1\<rparr>)
                      in emit k' (Release (SpaceMutex u) # map ShotDown complete));
            target_seq = shootSequence (spaces k3 space);
            k4 = emit k3 [Acquire (SpaceMutex space)];
            k5 = set_space k4 space
                   ((spaces k4 space)\<lparr>numBindings := numBindings (spaces k4 space) + 1\<rparr>);
            k6 = emit k5 [Release (SpaceMutex space)]
        in Inr (set_binding k6 c b
                  ((binding k6 c b)\<lparr>boundSpace := Some space,
                                     alreadyShotSequence := target_seq\<rparr>)))"

text \<open>
  The backward scan of \<open>PageBinding::shootdown\<close>: as in \<open>rebind\<close>, but every
  visited node is checked for alignment and its pages are invalidated, by
  address alone or by (PCID, address); \<open>pg\<close> runs over the page offsets below
  the node's size, as \<open>progress\<close> does in \<open>unmapRange\<close>.
\<close>

definition invalidations :: "bool \<Rightarrow> int \<Rightarrow> ShootNode \<Rightarrow> event list" where
  "invalidations have_pcids p node =
     map (\<lambda>pg. if \<not> have_pcids then InvalidatePage (address node + pg)
               else InvalidatePagePcid p (address node + pg))
         (progress_values (size_bytes node))"

fun shootdown_scan ::
  "bool \<Rightarrow> int \<Rightarrow> (nat \<Rightarrow> ShootNode) \<Rightarrow> u64 \<Rightarrow> nat list \<Rightarrow> nat list \<Rightarrow> nat list
     \<Rightarrow> event list \<Rightarrow> fault + ((nat \<Rightarrow> ShootNode) \<times> nat list \<times> nat list \<times> event list)" where
  "shootdown_scan have_pcids p ns shot [] kept complete evs = Inr (ns, kept, complete, evs)"
| "shootdown_scan have_pcids p ns shot (current # preds) kept complete evs =
     (if sequence (ns current) > shot
      then if address (ns current) AND (kPageSize - 1) \<noteq> 0 then Inl AssertFailed
           else if size_bytes (ns current) AND (kPageSize - 1) \<noteq> 0 then Inl AssertFailed
           else if \<not> have_pcids \<and> p \<noteq> 0 then Inl AssertFailed
           else
             let evs' = evs @ invalidations have_pcids p (ns current);
                 old = bindingsToShoot (ns current);
                 ns' = ns(current := (ns current)\<lparr>bindingsToShoot := old - 1\<rparr>)
             in if old = 1
                then shootdown_scan have_pcids p ns' shot preds kept (current # complete) evs'
                else shootdown_scan have_pcids p ns' shot preds (current # kept) complete evs'
      else Inr (ns, rev (current # preds) @ kept, complete, evs))"

definition shootdown :: "kernel \<Rightarrow> nat \<Rightarrow> nat \<Rightarrow> fault + kernel" where
  "shootdown k c b =
     (let cpu = cpus k c; self = binding k c b in
      if intsAreEnabled cpu then Inl AssertFailed
      else case grab k (boundSpace self) of
        None \<Rightarrow>
          if boundSpace self \<noteq> None
          then Inr (set_binding (emit k [InvalidatePcid (pcid self)]) c b
                      (self\<lparr>boundSpace := None\<rparr>))
          else Inr k
      | Some sp \<Rightarrow>
          let space = spaces k sp; k1 = emit k [Acquire (SpaceMutex sp)] in
          if shootQueue space = [] then Inr (emit k1 [Release (SpaceMutex sp)])
          else
            let target_seq = sequence (nodes k (last (shootQueue space))) in
            (case shootdown_scan (havePcids cpu) (pcid self) (nodes k)
                    (alreadyShotSequence self) (rev (shootQueue space)) [] [] [] of
               Inl e \<Rightarrow> Inl e
             | Inr (ns, queue, complete, evs) \<Rightarrow>
                 let k2 = emit k1 evs;
                     k3 = k2\<lparr>nodes := ns\<rparr>;
                     k4 = set_space k3 sp (space\<lparr>shootQueue := queue\<rparr>);
                     k5 = emit k4 (Release (SpaceMutex sp) # map ShotDown complete)
                 in Inr (set_binding k5 c b
                           ((binding k5 c b)\<lparr>alreadyShotSequence := target_seq\<rparr>))))"

text \<open>\<open>PageSpace::activate\<close> on CPU \<open>c\<close>: the loop over the binding array.\<close>

definition rebind_and_makePrimary :: "kernel \<Rightarrow> nat \<Rightarrow> nat \<Rightarrow> nat \<Rightarrow> fault + kernel" where
  "rebind_and_makePrimary k c b space =
     (case rebind k c b space of
        Inl e \<Rightarrow> Inl e
      | Inr k' \<Rightarrow> makePrimary k' c b)"

function activate_loop :: "kernel \<Rightarrow> nat \<Rightarrow> nat \<Rightarrow> nat \<Rightarrow> nat \<Rightarrow> fault + kernel" where
  "activate_loop k c space i lru =
     (if i < maxPcidCount
      then if grab k (boundSpace (binding k c i)) = Some space then makePrimary k c i
           else if \<not> havePcids (cpus k c) then rebind_and_makePrimary k c lru space
           else activate_loop k c space (i + 1)
                  (if primaryStamp (binding k c i) < primaryStamp (binding k c lru)
                   then i else lru)
      else rebind_and_makePrimary k c lru space)"
  by pat_completeness auto
termination
  by (relation "measure (\<lambda>(k, c, space, i, lru). maxPcidCount - i)") auto

declare activate_loop.simps [simp del]

definition activate :: "kernel \<Rightarrow> nat \<Rightarrow> nat \<Rightarrow> fault + kernel" where
  "activate k c space = activate_loop k c space 0 0"

text \<open>\<open>PageSpace::submitShootdown\<close> of node \<open>node\<close> on space \<open>sp\<close>.\<close>

definition submitShootdown :: "kernel \<Rightarrow> nat \<Rightarrow> nat \<Rightarrow> kernel" where
  "submitShootdown k sp node =
     (let this = spaces k sp;
          k1 = emit k [Acquire IrqMutex, Acquire (SpaceMutex sp)];
          any_bindings = (numBindings this \<noteq> 0);
          k2 = (if any_bindings
                then set_space
                       (k1\<lparr>nodes := (nodes k1)(node := (nodes k1 node)
                              \<lparr>sequence := shootSequence this,
                               bindingsToShoot := numBindings this\<rparr>)\<rparr>)
                       sp (this\<lparr>shootSequence := shootSequence this + 1,
                                shootQueue := shootQueue this @ [node]\<rparr>)
                else k1);
          k3 = emit k2 [Release (SpaceMutex sp), Release IrqMutex]
      in if any_bindings then emit k3 [ShootdownIpi] else emit k3 [ShotDown node])"

text \<open>
  The number of bindings, over all CPUs, that are bound to space \<open>sp\<close> and have
  not caught up with node \<open>node\<close>.
\<close>

definition bindings_behind :: "kernel \<Rightarrow> nat \<Rightarrow> nat \<Rightarrow> nat" where
  "bindings_behind k sp node =
     length (filter
       (\<lambda>(c, b). grab k (boundSpace (binding k c b)) = Some sp
                 \<and> alreadyShotSequence (binding k c b) < sequence (nodes k node))
       (List.product [0 ..< numCpus k] [0 ..< maxPcidCount]))"

text \<open>\<open>PageBinding::setupPcid\<close> (paging.hpp): the tag is assigned once.\<close>

definition setupPcid :: "PageBinding \<Rightarrow> int \<Rightarrow> fault + PageBinding" where
  "setupPcid self p = (if pcid self \<noteq> 0 then Inl AssertFailed else Inr (self\<lparr>pcid := p\<rparr>))"

text \<open>
  Modelled from the spec: the bring-up code is not among the sources. The spec
  says that each binding's \<open>pcid\<close> is assigned once at CPU bring-up, the
  distinct integers 1..N on a PCID-capable CPU and 0 otherwise. \<open>boot\<close> is a
  machine of \<open>n\<close> CPUs after bring-up: constructed objects with their tags,
  interrupts disabled, every space alive, nothing bound, nothing queued.
\<close>

definition boot :: "nat \<Rightarrow> bool \<Rightarrow> kernel" where
  "boot n have_pcids =
     \<lparr>spaces = (\<lambda>sp. new_PageSpace 0),
      alive = (\<lambda>sp. True),
      nodes = (\<lambda>node. \<lparr>address = 0, size_bytes = 0, sequence = 0, bindingsToShoot = 0\<rparr>),
      numCpus = n,
      cpus = (\<lambda>c. \<lparr>havePcids = have_pcids, pageContext = new_PageContext,
                    pcidBindings =
                      (\<lambda>b. new_PageBinding\<lparr>pcid := (if have_pcids then int b + 1 else 0)\<rparr>),
                    intsAreEnabled = False\<rparr>),
      trace = []\<rparr>"

section \<open>Notions used to state the page-table properties\<close>

text \<open>
  Two states differ at most by cleared Present bits: the allocator is untouched
  and every entry either keeps its value or was present and lost only that bit.
\<close>

definition only_present_cleared :: "machine \<Rightarrow> machine \<Rightarrow> bool" where
  "only_present_cleared s s' \<longleftrightarrow>
     free_frames s' = free_frames s \<and>
     (\<forall>t i. load s' t i = load s t i \<or>
            (load s t i AND kPagePresent \<noteq> 0 \<and>
             load s' t i = load s t i AND NOT kPagePresent))"

text \<open>
  Every present intermediate entry that the walk for \<open>v\<close> follows points into
  the identity window, so the \<open>PageAccessor\<close> built from it does not assert.
\<close>

definition walk_in_window :: "machine \<Rightarrow> u64 \<Rightarrow> u64 \<Rightarrow> bool" where
  "walk_in_window s root v =
     (let e4 = load s root (index4 v) in
      e4 AND kPagePresent \<noteq> 0 \<longrightarrow>
        e4 AND kAddrMask < 0x400000000000 \<and>
        (let e3 = load s (e4 AND kAddrMask) (index3 v) in
         e3 AND kPagePresent \<noteq> 0 \<longrightarrow>
           e3 AND kAddrMask < 0x400000000000 \<and>
           (let e2 = load s (e3 AND kAddrMask) (index2 v) in
            e2 AND kPagePresent \<noteq> 0 \<longrightarrow> e2 AND kAddrMask < 0x400000000000)))"

text \<open>
  What is expected of the physical allocator: it hands out distinct frame
  addresses (nothing outside the address field of an entry).
\<close>

definition frames_valid :: "machine \<Rightarrow> bool" where
  "frames_valid s \<longleftrightarrow>
     distinct (free_frames s) \<and> (\<forall>page \<in> set (free_frames s). page AND kAddrMask = page)"

text \<open>
  The table \<open>tbl\<close> and the tables reached from it through present entries at
  the indices \<open>idxs\<close>, one level per index, are not frames that the allocator
  will hand out.
\<close>

fun tables_not_free :: "machine \<Rightarrow> u64 \<Rightarrow> nat list \<Rightarrow> bool" where
  "tables_not_free s tbl [] = (tbl \<notin> set (free_frames s))"
| "tables_not_free s tbl (idx # rest) =
     (tbl \<notin> set (free_frames s) \<and>
      (load s tbl idx AND kPagePresent \<noteq> 0 \<longrightarrow>
         tables_not_free s (load s tbl idx AND kAddrMask) rest))"

text \<open>
  The allocator is fresh for the walk of \<open>v\<close> from \<open>root\<close>: its frames are
  valid and none of them is a table that the walk visits. Nothing is asked of
  any other word of memory.
\<close>

definition allocator_fresh :: "machine \<Rightarrow> u64 \<Rightarrow> u64 \<Rightarrow> bool" where
  "allocator_fresh s root v \<longleftrightarrow>
     frames_valid s \<and> tables_not_free s root [index4 v, index3 v, index2 v]"

text \<open>The four entries that the walk for \<open>v\<close> visits, following the address fields.\<close>

definition walk_slots :: "machine \<Rightarrow> u64 \<Rightarrow> u64 \<Rightarrow> (u64 \<times> nat) list" where
  "walk_slots s root v =
     (let tbl3 = load s root (index4 v) AND kAddrMask;
          tbl2 = load s tbl3 (index3 v) AND kAddrMask;
          tbl1 = load s tbl2 (index2 v) AND kAddrMask
      in [(root, index4 v), (tbl3, index3 v), (tbl2, index2 v), (tbl1, index1 v)])"

text \<open>The three intermediate entries of the walk for \<open>v\<close> are present.\<close>

definition tables_present :: "machine \<Rightarrow> u64 \<Rightarrow> u64 \<Rightarrow> bool" where
  "tables_present s root v =
     (let e4 = load s root (index4 v);
          e3 = load s (e4 AND kAddrMask) (index3 v);
          e2 = load s (e3 AND kAddrMask) (index2 v)
      in e4 AND kPagePresent \<noteq> 0 \<and> e3 AND kPagePresent \<noteq> 0
         \<and> e2 AND kPagePresent \<noteq> 0)"

text \<open>
  What one level of a \<open>mapSingle4k\<close> walk does to the state: it follows the
  present entry \<open>idx\<close> of \<open>tbl\<close>, or it takes the next frame of the allocator,
  zeroes it and links it with \<open>Present\<close> and the bits \<open>w\<close>.
\<close>

definition level_step :: "machine \<Rightarrow> u64 \<Rightarrow> nat \<Rightarrow> u64 \<Rightarrow> machine \<Rightarrow> u64 \<Rightarrow> bool" where
  "level_step s tbl idx w s' nxt \<longleftrightarrow>
     (load s tbl idx AND kPagePresent \<noteq> 0 \<and> s' = s \<and> nxt = load s tbl idx AND kAddrMask)
   \<or> (load s tbl idx AND kPagePresent = 0 \<and>
        (\<exists>rest. free_frames s = nxt # rest \<and>
           s' = store (zero_table (s\<lparr>free_frames := rest\<rparr>) nxt) tbl idx
                  (nxt OR kPagePresent OR w)))"

text \<open>\<open>mapSingle4k(v, p, flags, c)\<close> followed by \<open>unmapSingle4k(v)\<close>.\<close>

definition kernel_map_unmap ::
  "machine \<Rightarrow> u64 \<Rightarrow> u64 \<Rightarrow> u64 \<Rightarrow> u32 \<Rightarrow> CachingMode \<Rightarrow> fault + (machine \<times> u64)" where
  "kernel_map_unmap s root v p fl cm =
     (case kernel_mapSingle4k s root v p fl cm of
        Inl e \<Rightarrow> Inl e
      | Inr s1 \<Rightarrow> kernel_unmapSingle4k s1 root v)"

text \<open>
  Example machines, with the root table in frame \<open>0x1000\<close>: one with empty
  tables and three frames left in the allocator, one where the three
  intermediate tables for \<open>demo_va\<close> are linked, and that one with a leaf
  mapped at \<open>demo_va\<close>.
\<close>

definition demo_machine :: machine where
  "demo_machine = \<lparr>mem = (\<lambda>t i. 0), free_frames = [0x2000, 0x3000, 0x4000]\<rparr>"

definition demo_linked :: machine where
  "demo_linked =
     \<lparr>mem = (\<lambda>t i. 0)(0x1000 := (\<lambda>i. 0)(256 := 0x2003),
                        0x2000 := (\<lambda>i. 0)(0 := 0x3003),
                        0x3000 := (\<lambda>i. 0)(1 := 0x4003)),
      free_frames = []\<rparr>"

definition demo_mapped :: machine where
  "demo_mapped = store demo_linked 0x4000 1 0x8000000000005103"

definition demo_va :: u64 where "demo_va = 0xFFFF800000201000"

text \<open>
  A machine after kernel bring-up: every entry of the upper half of the kernel's
  root table (frame \<open>0x1000\<close>) links a table of its own, all of them still
  empty; the allocator holds four frames whose words are stale (\<open>0x5007\<close>, a
  present user entry). \<open>demo_client\<close> is that machine after
  \<open>ClientPageSpace()\<close> has built a client space, whose root is frame
  \<open>0x2000\<close>.
\<close>

definition demo_kernel :: machine where
  "demo_kernel =
     \<lparr>mem = (\<lambda>t i. if t = 0x1000
                     then (if 256 \<le> i \<and> i < 512 then 0x100003 + 0x1000 * of_nat i else 0)
                     else if t = 0x2000 \<or> t = 0x3000 \<or> t = 0x4000 \<or> t = 0x5000
                     then 0x5007 else 0),
      free_frames = [0x2000, 0x3000, 0x4000, 0x5000]\<rparr>"

definition demo_client :: machine where
  "demo_client = fst (projr (new_ClientPageSpace demo_kernel 0x1000))"


section \<open>Notions used to state the binding and shootdown properties\<close>

text \<open>Binding \<open>b\<close> of CPU \<open>c\<close> is bound to \<open>space\<close>: its weak pointer upgrades to it.\<close>

definition bound_to :: "kernel \<Rightarrow> nat \<Rightarrow> nat \<Rightarrow> nat \<Rightarrow> bool" where
  "bound_to k c b space \<longleftrightarrow> grab k (boundSpace (binding k c b)) = Some space"

text \<open>
  On a CPU without PCIDs \<open>activate\<close> only ever rebinds the first binding, so
  the other bindings of the array stay as constructed, bound to nothing.
\<close>

definition only_first_bound :: "kernel \<Rightarrow> nat \<Rightarrow> bool" where
  "only_first_bound k c \<longleftrightarrow>
     (\<forall>i. 0 < i \<and> i < maxPcidCount \<longrightarrow> boundSpace (binding k c i) = None)"

text \<open>
  The LRU clock is ahead of every stamp handed out: each \<open>makePrimary\<close> stamps
  a binding with \<open>_nextStamp\<close> and increments it, so this holds from bring-up
  until the 64-bit clock wraps.
\<close>

definition stamps_behind_clock :: "kernel \<Rightarrow> nat \<Rightarrow> bool" where
  "stamps_behind_clock k c \<longleftrightarrow>
     (\<forall>j < maxPcidCount.
        primaryStamp (binding k c j) < nextStamp (pageContext (cpus k c)))"

text \<open>The submitter fills in a node's address and size before submitting it.\<close>

definition with_node :: "kernel \<Rightarrow> nat \<Rightarrow> u64 \<Rightarrow> u64 \<Rightarrow> kernel" where
  "with_node k node a sz =
     k\<lparr>nodes := (nodes k)(node := (nodes k node)\<lparr>address := a, size_bytes := sz\<rparr>)\<rparr>"

text \<open>
  Modelled from the spec: the handler of the shootdown IPI is not among the
  sources. The spec says the IPI makes a CPU call its local
  \<open>PageBinding.shootdown()\<close>; here the handler of CPU \<open>c\<close> calls it for every
  binding of the CPU's array, in order.
\<close>

fun shootdown_bindings :: "kernel \<Rightarrow> nat \<Rightarrow> nat list \<Rightarrow> fault + kernel" where
  "shootdown_bindings k c [] = Inr k"
| "shootdown_bindings k c (b # bs) =
     (case shootdown k c b of
        Inl e \<Rightarrow> Inl e
      | Inr k' \<Rightarrow> shootdown_bindings k' c bs)"

definition shootdown_ipi :: "kernel \<Rightarrow> nat \<Rightarrow> fault + kernel" where
  "shootdown_ipi k c = shootdown_bindings k c [0 ..< maxPcidCount]"

text \<open>
  The ways in which the rest of the kernel drives this code: a CPU switches to
  an address space, a node is filled in and submitted on a space, a CPU's IPI
  handler runs \<open>shootdown\<close> on a binding, and the last strong reference to a
  space is dropped. \<open>run\<close> performs a sequence of them and stops at the first
  failed assertion.
\<close>

datatype operation =
    DoActivate nat nat
  | DoSubmit nat nat u64 u64
  | DoShootdown nat nat
  | DoDrop nat

fun perform :: "kernel \<Rightarrow> operation \<Rightarrow> fault + kernel" where
  "perform k (DoActivate c space) = activate k c space"
| "perform k (DoSubmit sp node a sz) = Inr (submitShootdown (with_node k node a sz) sp node)"
| "perform k (DoShootdown c b) = shootdown k c b"
| "perform k (DoDrop sp) = Inr (k\<lparr>alive := (alive k)(sp := False)\<rparr>)"

fun run :: "kernel \<Rightarrow> operation list \<Rightarrow> fault + kernel" where
  "run k [] = Inr k"
| "run k (x # xs) = (case perform k x of Inl e \<Rightarrow> Inl e | Inr k' \<Rightarrow> run k' xs)"

text \<open>
  The clock of every CPU is ahead of its stamps and has advanced at most \<open>m\<close>
  times; on every CPU without PCIDs only the first binding is bound.
\<close>

definition clock_bounded :: "nat \<Rightarrow> kernel \<Rightarrow> bool" where
  "clock_bounded m k \<longleftrightarrow>
     (\<forall>c. stamps_behind_clock k c
          \<and> unat (nextStamp (pageContext (cpus k c))) \<le> 1 + m)"

definition first_only :: "kernel \<Rightarrow> bool" where
  "first_only k \<longleftrightarrow> (\<forall>c. \<not> havePcids (cpus k c) \<and> only_first_bound k c)"

text \<open>
  A run on one CPU without PCIDs: after bring-up the CPU activates space 5, node
  7 (one page at \<open>0x1000\<close>) is submitted on space 5, the CPU handles the
  shootdown IPI; then either the CPU activates space 6 (rebinding away from
  space 5), or a second node 8 is submitted on space 5 and the IPI is handled
  again. \<open>scenario_warm\<close> is a CPU with PCIDs after activating space 5.
\<close>

definition scenario_bound :: "fault + kernel" where
  "scenario_bound = activate (boot 1 False) 0 5"

definition scenario_submitted :: kernel where
  "scenario_submitted = submitShootdown (with_node (projr scenario_bound) 7 0x1000 0x1000) 5 7"

definition scenario_ipi :: "fault + kernel" where
  "scenario_ipi = shootdown_ipi scenario_submitted 0"

definition scenario_rebound :: "fault + kernel" where
  "scenario_rebound = activate (projr scenario_ipi) 0 6"

definition scenario_second :: "fault + kernel" where
  "scenario_second =
     shootdown_ipi (submitShootdown (with_node (projr scenario_ipi) 8 0x2000 0x1000) 5 8) 0"

definition scenario_warm :: kernel where
  "scenario_warm = projr (activate (boot 1 True) 0 5)"

text \<open>
  Two runs on one CPU with PCIDs. In \<open>scenario_switched\<close> the CPU has activated
  space 5 and then space 6, so space 5 is bound but not primary. In
  \<open>scenario_cycled\<close> it has activated the spaces 10 to 17, which fills the
  eight bindings, and then space 10 again, so binding 1 is the least recently
  used.
\<close>

definition scenario_switched :: kernel where
  "scenario_switched = projr (run (boot 1 True) [DoActivate 0 5, DoActivate 0 6])"

definition scenario_cycled :: kernel where
  "scenario_cycled =
     projr (run (boot 1 True)
       [DoActivate 0 10, DoActivate 0 11, DoActivate 0 12, DoActivate 0 13,
        DoActivate 0 14, DoActivate 0 15, DoActivate 0 16, DoActivate 0 17,
        DoActivate 0 10])"


section \<open>Page tables: bit-level facts\<close>

lemma mod_page_eq_and: "(p::u64) mod 0x1000 = p AND 0xFFF"
proof -
  have "p mod 2 ^ 12 = take_bit 12 p" by (simp add: take_bit_eq_mod)
  also have "\<dots> = p AND mask 12" by (simp add: take_bit_eq_mask)
  finally show ?thesis by (simp add: mask_numeral)
qed

lemma low_bits_clear:
  assumes "(p::u64) AND 0xFFF = 0" and "m AND 0xFFF = m"
  shows "p AND m = 0"
proof -
  have "p AND m = p AND (0xFFF AND m)" using assms(2) by (simp add: and.commute)
  also have "\<dots> = (p AND 0xFFF) AND m" by (simp add: and.assoc)
  finally show ?thesis using assms(1) by simp
qed

lemma or_and_distrib: "((a::u64) OR b) AND m = (a AND m) OR (b AND m)"
  by (simp add: bit.conj_disj_distrib2)

lemmas flag_defs = kPagePresent_def kPageWrite_def kPageUser_def kPagePwt_def kPagePcd_def
  kPagePat_def kPageGlobal_def kPageXd_def

lemma cache_bits_cases:
  "cache_bits cm = Inr c \<Longrightarrow>
     cm \<noteq> uncached \<and> c = (case cm of writeThrough \<Rightarrow> kPagePwt
                                | writeCombine \<Rightarrow> kPagePat OR kPagePwt | _ \<Rightarrow> 0)"
  by (cases cm) (simp_all add: cache_bits_def)

lemma cache_bits_mask:
  "cache_bits cm = Inr c \<Longrightarrow> c AND (kPagePwt OR kPagePcd OR kPagePat) = c"
  by (cases cm) (simp_all add: cache_bits_def flag_defs)

lemma kernel_leaf_cache:
  assumes "p AND 0xFFF = 0" and "kernel_leaf_entry p fl cm = Inr e"
  shows "e AND (kPagePwt OR kPagePcd OR kPagePat) =
           (case cm of writeThrough \<Rightarrow> kPagePwt
                     | writeCombine \<Rightarrow> kPagePat OR kPagePwt | _ \<Rightarrow> 0)"
proof -
  have pz: "p AND (kPagePwt OR kPagePcd OR kPagePat) = 0"
    by (rule low_bits_clear [OF assms(1)]) (simp add: flag_defs)
  from assms(2) obtain c where c: "cache_bits cm = Inr c"
    by (auto simp: kernel_leaf_entry_def Let_def split: sum.splits)
  note cc = cache_bits_cases [OF c] cache_bits_mask [OF c]
  from assms(2) c have "e AND (kPagePwt OR kPagePcd OR kPagePat) = c"
    using pz cc(2)
    by (auto simp: kernel_leaf_entry_def Let_def or_and_distrib split: if_splits)
       (simp_all add: flag_defs)
  then show ?thesis using cc(1) by simp
qed


lemma load_store:
  "load (store s t i v) t' i' = (if t' = t \<and> i' = i then v else load s t' i')"
  by (simp add: load_def store_def)

lemma load_zero_table:
  "load (zero_table s t) t' i = (if t' = t \<and> i < 512 then 0 else load s t' i)"
  by (simp add: load_def zero_table_def)

lemma free_frames_store [simp]: "free_frames (store s t i v) = free_frames s"
  by (simp add: store_def)

lemma free_frames_zero_table [simp]: "free_frames (zero_table s t) = free_frames s"
  by (simp add: zero_table_def)

lemma allocate_Inr:
  "allocate s = Inr (s1, page) \<Longrightarrow>
     free_frames s = page # free_frames s1 \<and> mem s1 = mem s"
  by (auto simp: allocate_def split: list.splits)

lemma load_allocate: "allocate s = Inr (s1, page) \<Longrightarrow> load s1 t i = load s t i"
  by (simp add: load_def allocate_Inr)

lemma kernel_leaf_bits:
  assumes "p AND 0xFFF = 0" and "kernel_leaf_entry p fl cm = Inr e"
  shows "e AND kPageGlobal = kPageGlobal" and "e AND kPageUser = 0"
    and "e AND kPagePresent = kPagePresent"
proof -
  from assms(2) obtain c where c: "cache_bits cm = Inr c"
    by (auto simp: kernel_leaf_entry_def Let_def split: sum.splits)
  have cz: "c AND kPageGlobal = 0" "c AND kPageUser = 0" "c AND kPagePresent = 0"
    using c by (cases cm; simp add: cache_bits_def flag_defs)+
  have pz: "p AND kPageGlobal = 0" "p AND kPageUser = 0" "p AND kPagePresent = 0"
    by (rule low_bits_clear [OF assms(1)]; simp add: flag_defs)+
  from assms(2) c show "e AND kPageGlobal = kPageGlobal"
    using pz(1) cz(1)
    by (auto simp: kernel_leaf_entry_def Let_def or_and_distrib flag_defs split: if_splits)
  from assms(2) c show "e AND kPageUser = 0"
    using pz(2) cz(2)
    by (auto simp: kernel_leaf_entry_def Let_def or_and_distrib flag_defs split: if_splits)
  from assms(2) c show "e AND kPagePresent = kPagePresent"
    using pz(3) cz(3)
    by (auto simp: kernel_leaf_entry_def Let_def or_and_distrib flag_defs split: if_splits)
qed

lemma client_leaf_cache:
  assumes "p AND 0xFFF = 0" and "client_leaf_entry p u fl cm = Inr e"
  shows "e AND (kPagePwt OR kPagePcd OR kPagePat) =
           (case cm of writeThrough \<Rightarrow> kPagePwt
                     | writeCombine \<Rightarrow> kPagePat OR kPagePwt | _ \<Rightarrow> 0)"
proof -
  have pz: "p AND (kPagePwt OR kPagePcd OR kPagePat) = 0"
    by (rule low_bits_clear [OF assms(1)]) (simp add: flag_defs)
  from assms(2) obtain c where c: "cache_bits cm = Inr c"
    by (auto simp: client_leaf_entry_def Let_def split: sum.splits)
  note cc = cache_bits_cases [OF c] cache_bits_mask [OF c]
  from assms(2) c have "e AND (kPagePwt OR kPagePcd OR kPagePat) = c"
    using pz cc(2)
    by (auto simp: client_leaf_entry_def Let_def or_and_distrib split: if_splits)
       (simp_all add: flag_defs)
  then show ?thesis using cc(1) by simp
qed

lemma client_leaf_user:
  assumes "p AND 0xFFF = 0" and "client_leaf_entry p True fl cm = Inr e"
  shows "e AND kPageUser = kPageUser"
proof -
  from assms(2) obtain c where c: "cache_bits cm = Inr c"
    by (auto simp: client_leaf_entry_def Let_def split: sum.splits)
  have cz: "c AND kPageUser = 0"
    using c by (cases cm; simp add: cache_bits_def flag_defs)
  have pz: "p AND kPageUser = 0"
    by (rule low_bits_clear [OF assms(1)]; simp add: flag_defs)
  from assms(2) c show "e AND kPageUser = kPageUser"
    using pz cz
    by (auto simp: client_leaf_entry_def Let_def or_and_distrib flag_defs split: if_splits)
qed

lemma present_or: "(page OR kPagePresent OR w) AND kPagePresent \<noteq> 0"
proof -
  have "(page OR kPagePresent OR w) AND kPagePresent
          = kPagePresent OR ((page OR w) AND kPagePresent)"
    by (simp add: or_and_distrib ac_simps)
  then show ?thesis by (simp add: kPagePresent_def)
qed

lemma kernel_ensure_table_entry:
  assumes "kernel_ensure_table s tbl idx = Inr (s', nxt)"
  shows "load s' tbl idx AND kPageUser = 0" and "load s' tbl idx AND kPagePresent \<noteq> 0"
  using assms present_or [of _ kPageWrite]
  by (auto simp: kernel_ensure_table_def Let_def load_store
           split: if_splits sum.splits prod.splits)

lemma kernel_ensure_table_keeps_user_clear:
  assumes "kernel_ensure_table s tbl idx = Inr (s', nxt)"
      and "load s f i AND kPageUser = 0"
  shows "load s' f i AND kPageUser = 0"
  using assms
  by (auto simp: kernel_ensure_table_def Let_def load_store load_zero_table load_allocate
           split: if_splits sum.splits prod.splits)

lemma kernel_map_success:
  assumes "kernel_mapSingle4k s root v p fl cm = Inr s'"
  obtains s1 pdpt s2 pd s3 pt e where
    "v mod 0x1000 = 0" "p mod 0x1000 = 0"
    "kernel_ensure_table s root (index4 v) = Inr (s1, pdpt)"
    "kernel_ensure_table s1 pdpt (index3 v) = Inr (s2, pd)"
    "kernel_ensure_table s2 pd (index2 v) = Inr (s3, pt)"
    "load s3 pt (index1 v) AND kPagePresent = 0"
    "kernel_leaf_entry p fl cm = Inr e"
    "s' = store s3 pt (index1 v) e"
  using assms
  by (auto simp: kernel_mapSingle4k_def split: if_splits sum.splits prod.splits)

lemma client_ensure_table_entry:
  assumes "client_ensure_table s tbl idx u = Inr (s', nxt)"
  shows "u \<Longrightarrow> load s' tbl idx AND kPageUser \<noteq> 0"
    and "\<not> u \<Longrightarrow> load s' tbl idx AND kPageUser = 0"
    and "load s' tbl idx AND kPagePresent \<noteq> 0"
  using assms present_or [of _ kPageWrite] present_or [of _ "kPageWrite OR kPageUser"]
  by (auto simp: client_ensure_table_def Let_def load_store or.assoc
           split: if_splits sum.splits prod.splits)

lemma client_map_success:
  assumes "client_mapSingle4k s root v p u fl cm = Inr s'"
  obtains s1 tbl3 s2 tbl2 s3 tbl1 e where
    "v mod 0x1000 = 0" "p mod 0x1000 = 0" "PageAccessor root = Inr root"
    "client_ensure_table s root (index4 v) u = Inr (s1, tbl3)"
    "client_ensure_table s1 tbl3 (index3 v) u = Inr (s2, tbl2)"
    "client_ensure_table s2 tbl2 (index2 v) u = Inr (s3, tbl1)"
    "load s3 tbl1 (index1 v) AND kPagePresent = 0"
    "client_leaf_entry p u fl cm = Inr e"
    "s' = store s3 tbl1 (index1 v) e"
  using assms
  by (auto simp: client_mapSingle4k_def PageAccessor_def
           split: if_splits sum.splits prod.splits)

lemma leaf_entry_not_uncached:
  "kernel_leaf_entry p fl cm = Inr e \<Longrightarrow> cm \<noteq> uncached"
  "client_leaf_entry p u fl cm = Inr e \<Longrightarrow> cm \<noteq> uncached"
  by (auto simp: kernel_leaf_entry_def client_leaf_entry_def cache_bits_def Let_def
           split: sum.splits)

lemma xor_present:
  "(w::u64) AND kPagePresent \<noteq> 0 \<Longrightarrow> w XOR kPagePresent = w AND NOT kPagePresent"
  unfolding kPagePresent_def
  by (rule bit_word_eqI) (auto simp: bit_simps and_one_eq bit_0 odd_iff_mod_2_eq_one)

lemma and_mask_xor_present: "(w XOR kPagePresent) AND kAddrMask = w AND kAddrMask"
  by (simp add: bit.conj_xor_distrib2 kPagePresent_def kAddrMask_def)


lemma and_not_present_idem:
  "(w AND NOT kPagePresent) AND kPagePresent = 0"
  by (simp add: and.assoc)

lemma and_not_present_mask: "(w AND NOT kPagePresent) AND kAddrMask = w AND kAddrMask"
  by (simp add: and.assoc kPagePresent_def kAddrMask_def)

lemma kernel_unmap_success:
  assumes "kernel_unmapSingle4k s root v = Inr (s', r)"
  shows "leaf_present s root v"
    and "s' = store s (leaf_table s root v) (index1 v)
                (load s (leaf_table s root v) (index1 v) AND NOT kPagePresent)"
    and "r = load s (leaf_table s root v) (index1 v) AND kAddrMask"
  using assms
  by (auto simp: kernel_unmapSingle4k_def leaf_present_def leaf_table_def Let_def
                 load_store xor_present and_mask_xor_present and_not_present_mask
           split: if_splits)

lemma PageAccessor_Inr: "PageAccessor x = Inr y \<Longrightarrow> y = x"
  by (auto simp: PageAccessor_def split: if_splits)

lemma unmap_page_success:
  assumes "unmap_page s root va mode = Inr s'"
  shows "s' = s \<or>
         (leaf_present s root va \<and>
          s' = store s (leaf_table s root va) (index1 va)
                 (load s (leaf_table s root va) (index1 va) AND NOT kPagePresent))"
  using assms
  by (auto simp: unmap_page_def leaf_present_def leaf_table_def Let_def
           dest!: PageAccessor_Inr split: if_splits sum.splits)

lemma only_present_cleared_refl: "only_present_cleared s s"
  by (simp add: only_present_cleared_def)

lemma only_present_cleared_trans:
  assumes "only_present_cleared s s1" and "only_present_cleared s1 s2"
  shows "only_present_cleared s s2"
  unfolding only_present_cleared_def
proof (intro conjI allI)
  show "free_frames s2 = free_frames s"
    using assms by (simp add: only_present_cleared_def)
  fix t i
  from assms(1) have a: "load s1 t i = load s t i \<or>
      (load s t i AND kPagePresent \<noteq> 0 \<and> load s1 t i = load s t i AND NOT kPagePresent)"
    by (simp add: only_present_cleared_def)
  from assms(2) have b: "load s2 t i = load s1 t i \<or>
      (load s1 t i AND kPagePresent \<noteq> 0 \<and> load s2 t i = load s1 t i AND NOT kPagePresent)"
    by (simp add: only_present_cleared_def)
  from a b show "load s2 t i = load s t i \<or>
      (load s t i AND kPagePresent \<noteq> 0 \<and> load s2 t i = load s t i AND NOT kPagePresent)"
    using and_not_present_idem [of "load s t i"] by auto
qed

lemma only_present_cleared_store:
  "load s t i AND kPagePresent \<noteq> 0 \<Longrightarrow>
   only_present_cleared s (store s t i (load s t i AND NOT kPagePresent))"
  by (simp add: only_present_cleared_def load_store)

lemma unmap_page_only_present:
  "unmap_page s root va mode = Inr s' \<Longrightarrow> only_present_cleared s s'"
  using unmap_page_success [of s root va mode s']
  by (auto simp: only_present_cleared_refl leaf_present_def leaf_table_def Let_def
           intro!: only_present_cleared_store)

lemma unmapRange_loop_only_present:
  "unmapRange_loop s root v mode ps = Inr s' \<Longrightarrow> only_present_cleared s s'"
proof (induction ps arbitrary: s)
  case Nil
  then show ?case by (simp add: only_present_cleared_refl)
next
  case (Cons pg ps)
  from Cons.prems obtain s1 where
    a: "unmap_page s root (v + pg) mode = Inr s1"
    and b: "unmapRange_loop s1 root v mode ps = Inr s'"
    by (auto split: sum.splits)
  show ?case
    by (rule only_present_cleared_trans [OF unmap_page_only_present [OF a] Cons.IH [OF b]])
qed

lemma addr_field_aligned: "(e AND kAddrMask) AND (kPageSize - 1) = 0"
  by (simp add: and.assoc kAddrMask_def kPageSize_def)

lemma PageAccessor_entry:
  "e AND kAddrMask < 0x400000000000 \<Longrightarrow> PageAccessor (e AND kAddrMask) = Inr (e AND kAddrMask)"
  by (simp add: PageAccessor_def addr_field_aligned)

lemma PageAccessor_entry_iff:
  "PageAccessor (e AND kAddrMask) =
     (if e AND kAddrMask < 0x400000000000 then Inr (e AND kAddrMask) else Inl AssertFailed)"
  by (simp add: PageAccessor_def addr_field_aligned)

lemma kernel_ensure_table_cases:
  assumes "kernel_ensure_table s tbl idx = Inr (s', nxt)"
  obtains (follow) "load s tbl idx AND kPagePresent \<noteq> 0" "s' = s"
                   "nxt = load s tbl idx AND kAddrMask"
        | (link) rest where "load s tbl idx AND kPagePresent = 0"
                   "free_frames s = nxt # rest"
                   "s' = store (zero_table (s\<lparr>free_frames := rest\<rparr>) nxt) tbl idx
                           (nxt OR kPagePresent OR kPageWrite)"
  using assms
  by (auto simp: kernel_ensure_table_def Let_def allocate_def
           split: if_splits sum.splits prod.splits list.splits)

lemma load_free_frames_update [simp]: "load (s\<lparr>free_frames := r\<rparr>) t i = load s t i"
  by (simp add: load_def)

lemma index_bound: "index4 v < 512" "index3 v < 512" "index2 v < 512" "index1 v < 512"
proof -
  have b: "unat (x AND 0x1FF) < 512" for x :: u64
  proof -
    have "x AND 0x1FF \<le> 0x1FF" by (rule word_and_le1)
    then have "unat (x AND 0x1FF) \<le> unat (0x1FF :: u64)" by (simp add: word_le_nat_alt)
    then show ?thesis by simp
  qed
  show "index4 v < 512" "index3 v < 512" "index2 v < 512" "index1 v < 512"
    by (simp_all add: index4_def index3_def index2_def index1_def b)
qed

lemma kernel_ensure_table_level_step:
  "kernel_ensure_table s tbl idx = Inr (s', nxt) \<Longrightarrow> level_step s tbl idx kPageWrite s' nxt"
  by (erule kernel_ensure_table_cases) (auto simp: level_step_def)

lemma link_entry_addr:
  "page AND kAddrMask = page \<Longrightarrow> w AND kAddrMask = 0
     \<Longrightarrow> (page OR kPagePresent OR w) AND kAddrMask = page"
  by (simp add: or_and_distrib kPagePresent_def kAddrMask_def)

lemma level_step_facts:
  assumes fv: "frames_valid s" and tn: "tables_not_free s tbl (idx # rest)"
      and st: "level_step s tbl idx w s' nxt" and w: "w AND kAddrMask = 0"
      and rb: "\<forall>j \<in> set rest. j < 512"
  shows "frames_valid s'"
    and "tables_not_free s' nxt rest"
    and "load s' tbl idx AND kPagePresent \<noteq> 0"
    and "load s' tbl idx AND kAddrMask = nxt"
    and "set (free_frames s') \<subseteq> set (free_frames s)"
    and "nxt \<notin> set (free_frames s')"
    and "\<And>t i. (t, i) \<noteq> (tbl, idx) \<Longrightarrow>
           load s' t i = (if t \<in> set (free_frames s) \<and> t \<notin> set (free_frames s') \<and> i < 512
                          then 0 else load s t i)"
    and "load s' tbl idx = (if nxt \<in> set (free_frames s) then nxt OR kPagePresent OR w
                            else load s tbl idx)"
    and "(s' = s \<and> nxt \<notin> set (free_frames s) \<and> load s tbl idx AND kPagePresent \<noteq> 0)
         \<or> (nxt \<in> set (free_frames s) \<and> nxt \<noteq> tbl \<and>
             load s tbl idx AND kPagePresent = 0 \<and>
             (\<forall>i < 512. load s' nxt i = 0))"
    and "\<exists>used. free_frames s = used @ free_frames s' \<and> length used \<le> 1 \<and> set used \<subseteq> {nxt}"
proof -
  have tf: "tbl \<notin> set (free_frames s)" using tn by simp
  from st consider
      (follow) "load s tbl idx AND kPagePresent \<noteq> 0" "s' = s"
               "nxt = load s tbl idx AND kAddrMask"
    | (link) r where "load s tbl idx AND kPagePresent = 0" "free_frames s = nxt # r"
               "s' = store (zero_table (s\<lparr>free_frames := r\<rparr>) nxt) tbl idx
                       (nxt OR kPagePresent OR w)"
    by (auto simp: level_step_def)
  then have all: "frames_valid s'
    \<and> tables_not_free s' nxt rest
    \<and> load s' tbl idx AND kPagePresent \<noteq> 0
    \<and> load s' tbl idx AND kAddrMask = nxt
    \<and> set (free_frames s') \<subseteq> set (free_frames s)
    \<and> nxt \<notin> set (free_frames s')
    \<and> (\<forall>t i. (t, i) \<noteq> (tbl, idx) \<longrightarrow>
           load s' t i = (if t \<in> set (free_frames s) \<and> t \<notin> set (free_frames s') \<and> i < 512
                          then 0 else load s t i))
    \<and> load s' tbl idx = (if nxt \<in> set (free_frames s) then nxt OR kPagePresent OR w
                            else load s tbl idx)
    \<and> ((s' = s \<and> nxt \<notin> set (free_frames s) \<and> load s tbl idx AND kPagePresent \<noteq> 0)
         \<or> (nxt \<in> set (free_frames s) \<and> nxt \<noteq> tbl \<and>
             load s tbl idx AND kPagePresent = 0 \<and>
             (\<forall>i < 512. load s' nxt i = 0)))
    \<and> (\<exists>used. free_frames s = used @ free_frames s' \<and> length used \<le> 1 \<and> set used \<subseteq> {nxt})"
  proof cases
    case follow
    have nf: "tables_not_free s nxt rest" using tn follow by simp
    then have "nxt \<notin> set (free_frames s)" by (cases rest) simp_all
    then show ?thesis using follow fv nf by auto
  next
    case (link r)
    have d: "nxt \<notin> set r" "distinct r" and va: "nxt AND kAddrMask = nxt"
      and vr: "\<forall>page \<in> set r. page AND kAddrMask = page"
      using fv link(2) by (auto simp: frames_valid_def)
    have ne: "nxt \<noteq> tbl" using tf link(2) by auto
    have ld: "load s' t i = (if t = tbl \<and> i = idx then nxt OR kPagePresent OR w
                             else if t = nxt \<and> i < 512 then 0 else load s t i)" for t i
      by (simp add: link(3) load_store load_zero_table)
    have fs: "free_frames s' = r" by (simp add: link(3))
    have 1: "frames_valid s'" using d vr by (simp add: frames_valid_def fs)
    have 2: "tables_not_free s' nxt rest"
    proof (cases rest)
      case Nil
      then show ?thesis using d by (simp add: fs)
    next
      case (Cons j js)
      then have "j < 512" using rb by simp
      then have "load s' nxt j = 0" using ne by (simp add: ld)
      then show ?thesis using d Cons by (simp add: fs)
    qed
    have 3: "load s' tbl idx AND kPagePresent \<noteq> 0"
      using present_or [of nxt w] by (simp add: ld)
    have 4: "load s' tbl idx AND kAddrMask = nxt"
      by (simp add: ld link_entry_addr [OF va w])
    have 7: "\<forall>t i. (t, i) \<noteq> (tbl, idx) \<longrightarrow>
           load s' t i = (if t \<in> set (free_frames s) \<and> t \<notin> set (free_frames s') \<and> i < 512
                          then 0 else load s t i)"
      using d by (auto simp: ld fs link(2))
    have 9: "\<forall>i < 512. load s' nxt i = 0" using ne by (simp add: ld)
    have 10: "free_frames s = [nxt] @ free_frames s' \<and> length [nxt] \<le> 1
                \<and> set [nxt] \<subseteq> {nxt}" by (simp add: fs link(2))
    have 5: "set (free_frames s') \<subseteq> set (free_frames s)" "nxt \<notin> set (free_frames s')"
            "nxt \<in> set (free_frames s)"
      using d by (auto simp: fs link(2))
    have 8: "load s' tbl idx = (if nxt \<in> set (free_frames s) then nxt OR kPagePresent OR w
                            else load s tbl idx)"
      using 5 by (simp add: ld)
    show ?thesis
      using 1 2 3 4 5 7 8 9 10 ne link(1) by blast
  qed
  from all show "frames_valid s'"
    and "tables_not_free s' nxt rest"
    and "load s' tbl idx AND kPagePresent \<noteq> 0"
    and "load s' tbl idx AND kAddrMask = nxt"
    and "set (free_frames s') \<subseteq> set (free_frames s)"
    and "nxt \<notin> set (free_frames s')"
    and "\<And>t i. (t, i) \<noteq> (tbl, idx) \<Longrightarrow>
           load s' t i = (if t \<in> set (free_frames s) \<and> t \<notin> set (free_frames s') \<and> i < 512
                          then 0 else load s t i)"
    and "load s' tbl idx = (if nxt \<in> set (free_frames s) then nxt OR kPagePresent OR w
                            else load s tbl idx)"
    and "(s' = s \<and> nxt \<notin> set (free_frames s) \<and> load s tbl idx AND kPagePresent \<noteq> 0)
         \<or> (nxt \<in> set (free_frames s) \<and> nxt \<noteq> tbl \<and>
             load s tbl idx AND kPagePresent = 0 \<and>
             (\<forall>i < 512. load s' nxt i = 0))"
    and "\<exists>used. free_frames s = used @ free_frames s' \<and> length used \<le> 1 \<and> set used \<subseteq> {nxt}"
    by blast+
qed


lemma walk_installed:
  assumes fv: "frames_valid s"
      and tn: "tables_not_free s root [index4 v, index3 v, index2 v]"
      and w: "w AND kAddrMask = 0"
      and a: "level_step s root (index4 v) w sa pdpt"
      and b: "level_step sa pdpt (index3 v) w sb pd"
      and c: "level_step sb pd (index2 v) w sc pt"
      and lf: "load sc pt (index1 v) AND kPagePresent = 0"
      and s1: "s1 = store sc pt (index1 v) x"
  shows "walk_slots s1 root v =
           [(root, index4 v), (pdpt, index3 v), (pd, index2 v), (pt, index1 v)]"
    and "load s1 root (index4 v) = load sa root (index4 v)"
    and "load s1 pdpt (index3 v) = load sb pdpt (index3 v)"
    and "load s1 pd (index2 v) = load sc pd (index2 v)"
    and "load s1 pt (index1 v) = x"
    and "load s1 root (index4 v) AND kPagePresent \<noteq> 0
         \<and> load s1 pdpt (index3 v) AND kPagePresent \<noteq> 0
         \<and> load s1 pd (index2 v) AND kPagePresent \<noteq> 0"
    and "load s1 root (index4 v) =
           (if pdpt \<in> set (free_frames s) \<and> pdpt \<notin> set (free_frames s1)
            then pdpt OR kPagePresent OR w else load s root (index4 v))"
    and "load s1 pdpt (index3 v) =
           (if pd \<in> set (free_frames s) \<and> pd \<notin> set (free_frames s1)
            then pd OR kPagePresent OR w else load s pdpt (index3 v))"
    and "load s1 pd (index2 v) =
           (if pt \<in> set (free_frames s) \<and> pt \<notin> set (free_frames s1)
            then pt OR kPagePresent OR w else load s pd (index2 v))"
    and "\<And>t i. (t, i) \<notin> {(root, index4 v), (pdpt, index3 v), (pd, index2 v), (pt, index1 v)}
           \<Longrightarrow> load s1 t i =
                 (if t \<in> set (free_frames s) \<and> t \<notin> set (free_frames s1) \<and> i < 512
                  then 0 else load s t i)"
    and "\<exists>used. free_frames s = used @ free_frames s1 \<and> length used \<le> 3
           \<and> set used \<subseteq> {pdpt, pd, pt}"
    and "if tables_present s root v
         then sc = s \<and> pt = leaf_table s root v \<and> pt \<notin> set (free_frames s)
         else pt \<in> set (free_frames s) \<and> pt \<notin> set (free_frames s1)
              \<and> pt \<noteq> root \<and> pt \<noteq> pdpt \<and> pt \<noteq> pd"
proof -
  note ib = index_bound [of v]
  have rb3: "\<forall>j \<in> set [index3 v, index2 v]. j < 512" using ib by simp
  have rb2: "\<forall>j \<in> set [index2 v]. j < 512" using ib by simp
  have rb1: "\<forall>j \<in> set ([]::nat list). j < 512" by simp
  note A = level_step_facts [OF fv tn a w rb3]
  note B = level_step_facts [OF A(1) A(2) b w rb2]
  note C = level_step_facts [OF B(1) B(2) c w rb1]
  let ?Fs = "set (free_frames s)" and ?Fa = "set (free_frames sa)"
  let ?Fb = "set (free_frames sb)" and ?Fc = "set (free_frames sc)"
  have f1: "free_frames s1 = free_frames sc" by (simp add: s1)
  have rs: "root \<notin> ?Fs" using tn by simp
  have ra: "root \<notin> ?Fa" using rs A(5) by blast
  have rbb: "root \<notin> ?Fb" using ra B(5) by blast
  have qa: "pdpt \<notin> ?Fa" by (rule A(6))
  have qb: "pdpt \<notin> ?Fb" using qa B(5) by blast
  have pb: "pd \<notin> ?Fb" by (rule B(6))
  have pc: "pt \<notin> ?Fc" by (rule C(6))
  \<comment> \<open>a later level never writes an earlier entry: it writes a non-present entry
      or zeroes a frame that was still free\<close>
  have ne43: "(root, index4 v) \<noteq> (pdpt, index3 v) \<or> sb = sa"
    using A(3) B(9) by auto
  have e4b: "load sb root (index4 v) = load sa root (index4 v)"
  proof (cases "sb = sa")
    case True then show ?thesis by simp
  next
    case False
    then have "(root, index4 v) \<noteq> (pdpt, index3 v)" using ne43 by simp
    then show ?thesis using B(7) [of root "index4 v"] ra by simp
  qed
  have e4c: "load sc root (index4 v) = load sa root (index4 v)"
  proof (cases "sc = sb")
    case True then show ?thesis using e4b by simp
  next
    case False
    then have "(root, index4 v) \<noteq> (pd, index2 v)" using A(3) e4b C(9) by auto
    then show ?thesis using C(7) [of root "index4 v"] rbb e4b by simp
  qed
  have e3c: "load sc pdpt (index3 v) = load sb pdpt (index3 v)"
  proof (cases "sc = sb")
    case True then show ?thesis by simp
  next
    case False
    then have "(pdpt, index3 v) \<noteq> (pd, index2 v)" using B(3) C(9) by auto
    then show ?thesis using C(7) [of pdpt "index3 v"] qb by simp
  qed
  have n4: "(root, index4 v) \<noteq> (pt, index1 v)" using lf A(3) e4c by auto
  have n3: "(pdpt, index3 v) \<noteq> (pt, index1 v)" using lf B(3) e3c by auto
  have n2: "(pd, index2 v) \<noteq> (pt, index1 v)" using lf C(3) by auto
  show w4: "load s1 root (index4 v) = load sa root (index4 v)"
    using n4 by (auto simp: s1 load_store e4c)
  show w3: "load s1 pdpt (index3 v) = load sb pdpt (index3 v)"
    using n3 by (auto simp: s1 load_store e3c)
  show w2: "load s1 pd (index2 v) = load sc pd (index2 v)"
    using n2 by (auto simp: s1 load_store)
  show w1: "load s1 pt (index1 v) = x" by (simp add: s1 load_store)
  show "walk_slots s1 root v =
           [(root, index4 v), (pdpt, index3 v), (pd, index2 v), (pt, index1 v)]"
    by (simp add: walk_slots_def Let_def w4 w3 w2 A(4) B(4) C(4))
  show "load s1 root (index4 v) AND kPagePresent \<noteq> 0
         \<and> load s1 pdpt (index3 v) AND kPagePresent \<noteq> 0
         \<and> load s1 pd (index2 v) AND kPagePresent \<noteq> 0"
    using A(3) B(3) C(3) by (simp add: w4 w3 w2)
  \<comment> \<open>once a level links a fresh table, the levels below find it empty and link too\<close>
  have z3: "load sa pdpt (index3 v) = 0" if "pdpt \<in> ?Fs"
    using A(9) that ib(2) by auto
  have z2: "load sb pd (index2 v) = 0" if "pd \<in> ?Fa"
    using B(9) that ib(3) by auto
  have fb: "sb = sa \<and> pd \<notin> ?Fa \<and> sa = s \<and> pdpt \<notin> ?Fs" if "pd \<notin> ?Fa"
  proof -
    from B(9) that have x: "sb = sa" "load sa pdpt (index3 v) AND kPagePresent \<noteq> 0"
      by auto
    then have "pdpt \<notin> ?Fs" using z3 by auto
    then show ?thesis using A(9) x that by auto
  qed
  have fc: "sc = sb \<and> pt \<notin> ?Fb \<and> sb = sa \<and> pd \<notin> ?Fa \<and> sa = s \<and> pdpt \<notin> ?Fs"
    if "pt \<notin> ?Fb"
  proof -
    from C(9) that have x: "sc = sb" "load sb pd (index2 v) AND kPagePresent \<noteq> 0"
      by auto
    then have "pd \<notin> ?Fa" using z2 by auto
    then show ?thesis using fb x that by auto
  qed
  show "load s1 root (index4 v) =
           (if pdpt \<in> set (free_frames s) \<and> pdpt \<notin> set (free_frames s1)
            then pdpt OR kPagePresent OR w else load s root (index4 v))"
    using A(8) qa C(5) B(5) by (auto simp: w4 f1)
  show "load s1 pdpt (index3 v) =
           (if pd \<in> set (free_frames s) \<and> pd \<notin> set (free_frames s1)
            then pd OR kPagePresent OR w else load s pdpt (index3 v))"
  proof (cases "pd \<in> ?Fa")
    case True
    then show ?thesis using B(8) A(5) pb C(5) by (auto simp: w3 f1)
  next
    case False
    note F = fb [OF False]
    then show ?thesis using B(8) False by (auto simp: w3 f1)
  qed
  show "load s1 pd (index2 v) =
           (if pt \<in> set (free_frames s) \<and> pt \<notin> set (free_frames s1)
            then pt OR kPagePresent OR w else load s pd (index2 v))"
  proof (cases "pt \<in> ?Fb")
    case True
    then show ?thesis using C(8) A(5) B(5) pc by (auto simp: w2 f1)
  next
    case False
    note F = fc [OF False]
    then show ?thesis using C(8) False by (auto simp: w2 f1)
  qed
  show "\<exists>used. free_frames s = used @ free_frames s1 \<and> length used \<le> 3
           \<and> set used \<subseteq> {pdpt, pd, pt}"
  proof -
    from A(10) obtain u1 where u1: "free_frames s = u1 @ free_frames sa" "length u1 \<le> 1"
      "set u1 \<subseteq> {pdpt}" by blast
    from B(10) obtain u2 where u2: "free_frames sa = u2 @ free_frames sb" "length u2 \<le> 1"
      "set u2 \<subseteq> {pd}" by blast
    from C(10) obtain u3 where u3: "free_frames sb = u3 @ free_frames sc" "length u3 \<le> 1"
      "set u3 \<subseteq> {pt}" by blast
    have "free_frames s = (u1 @ u2 @ u3) @ free_frames s1" "length (u1 @ u2 @ u3) \<le> 3"
      "set (u1 @ u2 @ u3) \<subseteq> {pdpt, pd, pt}"
      using u1 u2 u3 by (auto simp: f1)
    then show ?thesis by blast
  qed
  show "if tables_present s root v
         then sc = s \<and> pt = leaf_table s root v \<and> pt \<notin> set (free_frames s)
         else pt \<in> set (free_frames s) \<and> pt \<notin> set (free_frames s1)
              \<and> pt \<noteq> root \<and> pt \<noteq> pdpt \<and> pt \<noteq> pd"
  proof (cases "pt \<in> ?Fb")
    case False
    note F = fc [OF False]
    have "load s root (index4 v) AND kPagePresent \<noteq> 0"
         "load s pdpt (index3 v) AND kPagePresent \<noteq> 0"
         "load s pd (index2 v) AND kPagePresent \<noteq> 0"
      using A(3) B(3) C(3) F by auto
    moreover have "load s root (index4 v) AND kAddrMask = pdpt"
         "load s pdpt (index3 v) AND kAddrMask = pd"
         "load s pd (index2 v) AND kAddrMask = pt"
      using A(4) B(4) C(4) F by auto
    ultimately have "tables_present s root v" "pt = leaf_table s root v"
      by (simp_all add: tables_present_def leaf_table_def Let_def)
    then show ?thesis using F False by auto
  next
    case True
    have "\<not> tables_present s root v"
    proof
      assume tp: "tables_present s root v"
      then have p4: "load s root (index4 v) AND kPagePresent \<noteq> 0"
        by (simp add: tables_present_def Let_def)
      with A(9) have sa: "sa = s" by auto
      with A(4) have q: "load s root (index4 v) AND kAddrMask = pdpt" by simp
      with tp have p3: "load sa pdpt (index3 v) AND kPagePresent \<noteq> 0"
        by (simp add: tables_present_def Let_def sa)
      with B(9) have sb: "sb = sa" by auto
      with B(4) sa have q2: "load s pdpt (index3 v) AND kAddrMask = pd" by simp
      with tp q have "load sb pd (index2 v) AND kPagePresent \<noteq> 0"
        by (simp add: tables_present_def Let_def sa sb)
      with C(9) have "pt \<notin> ?Fb" by auto
      with True show False by simp
    qed
    then show ?thesis using True rbb qb pb pc A(5) B(5) by (auto simp: f1)
  qed
  fix t i
  assume ns: "(t, i) \<notin> {(root, index4 v), (pdpt, index3 v), (pd, index2 v), (pt, index1 v)}"
  have 1: "load sa t i = (if t \<in> ?Fs \<and> t \<notin> ?Fa \<and> i < 512 then 0 else load s t i)"
    using A(7) [of t i] ns by simp
  have 2: "load sb t i = (if t \<in> ?Fa \<and> t \<notin> ?Fb \<and> i < 512 then 0 else load sa t i)"
    using B(7) [of t i] ns by simp
  have 3: "load sc t i = (if t \<in> ?Fb \<and> t \<notin> ?Fc \<and> i < 512 then 0 else load sb t i)"
    using C(7) [of t i] ns by simp
  have 4: "load s1 t i = load sc t i" using ns by (auto simp: s1 load_store)
  show "load s1 t i =
          (if t \<in> set (free_frames s) \<and> t \<notin> set (free_frames s1) \<and> i < 512
           then 0 else load s t i)"
    using 1 2 3 4 A(5) B(5) C(5) by (auto simp: f1 split: if_splits)
qed

lemma write_no_addr: "kPageWrite AND kAddrMask = 0"
  "(kPageWrite OR kPageUser) AND kAddrMask = 0"
  by (simp_all add: kPageWrite_def kPageUser_def kAddrMask_def)

lemma client_ensure_table_level_step:
  assumes "client_ensure_table s tbl idx u = Inr (s', nxt)"
  shows "level_step s tbl idx (if u then kPageWrite OR kPageUser else kPageWrite) s' nxt"
  using assms
  by (auto simp: client_ensure_table_def Let_def allocate_def level_step_def or.assoc
           dest!: PageAccessor_Inr
           split: if_splits sum.splits prod.splits list.splits)


lemma store_zeros_result:
  "free_frames (store_zeros s t is) = free_frames s
   \<and> (\<forall>t' j. load (store_zeros s t is) t' j = (if t' = t \<and> j \<in> set is then 0 else load s t' j))"
  by (induction "is" arbitrary: s) (auto simp: load_store)

lemma copy_kernel_entries_result:
  assumes "k \<noteq> t" and "\<forall>i \<in> set is. load s k i AND kPagePresent \<noteq> 0"
  shows "\<exists>s'. copy_kernel_entries s k t is = Inr s' \<and> free_frames s' = free_frames s
          \<and> (\<forall>t' j. load s' t' j = (if t' = t \<and> j \<in> set is then load s k j else load s t' j))"
  using assms
proof (induction "is" arbitrary: s)
  case Nil
  then show ?case by simp
next
  case (Cons i rest)
  define s1 where "s1 = store s t i (load s k i)"
  have k1: "load s1 k j = load s k j" for j using Cons.prems(1) by (simp add: s1_def load_store)
  have "\<forall>i \<in> set rest. load s1 k i AND kPagePresent \<noteq> 0" using Cons.prems(2) by (simp add: k1)
  from Cons.IH [OF Cons.prems(1) this] obtain s' where
    r: "copy_kernel_entries s1 k t rest = Inr s'" "free_frames s' = free_frames s1"
       "\<forall>t' j. load s' t' j = (if t' = t \<and> j \<in> set rest then load s1 k j else load s1 t' j)"
    by blast
  have "copy_kernel_entries s k t (i # rest) = Inr s'"
    using Cons.prems(2) r(1) by (simp add: s1_def)
  moreover have "free_frames s' = free_frames s" by (simp add: r(2) s1_def)
  moreover have "\<forall>t' j. load s' t' j =
       (if t' = t \<and> j \<in> set (i # rest) then load s k j else load s t' j)"
    by (auto simp: r(3) k1) (auto simp: s1_def load_store)
  ultimately show ?case by blast
qed

lemma new_ClientPageSpace_result:
  assumes f: "free_frames s = root # rest" and pa: "PageAccessor root = Inr root"
      and ne: "k \<noteq> root"
      and pr: "\<forall>i. 256 \<le> i \<and> i < 512 \<longrightarrow> load s k i AND kPagePresent \<noteq> 0"
  shows "\<exists>s'. new_ClientPageSpace s k = Inr (s', root) \<and> free_frames s' = rest
          \<and> mem s' = (\<lambda>t j. if t = root \<and> j < 256 then 0
                             else if t = root \<and> j < 512 then mem s k j else mem s t j)"
proof -
  define s1 where "s1 = s\<lparr>free_frames := rest\<rparr>"
  define s2 where "s2 = store_zeros s1 root [0 ..< 256]"
  have al: "allocate s = Inr (s1, root)" by (simp add: allocate_def f s1_def)
  note Z = store_zeros_result [of s1 root "[0 ..< 256]", folded s2_def, unfolded set_upt]
  have zf: "free_frames s2 = rest" using Z by (simp add: s1_def)
  have zl: "load s2 t j = (if t = root \<and> j < 256 then 0 else load s t j)" for t j
    using Z by (simp add: s1_def)
  have "\<forall>i \<in> {256 ..< 512}. load s2 k i AND kPagePresent \<noteq> 0"
    using pr ne by (simp add: zl)
  then have "\<forall>i \<in> set [256 ..< 512]. load s2 k i AND kPagePresent \<noteq> 0"
    unfolding set_upt .
  from copy_kernel_entries_result [OF ne this, unfolded set_upt] obtain s' where
    r: "copy_kernel_entries s2 k root [256 ..< 512] = Inr s'" "free_frames s' = free_frames s2"
       "\<forall>t' j. load s' t' j =
          (if t' = root \<and> j \<in> {256 ..< 512} then load s2 k j else load s2 t' j)"
    by blast
  have 1: "new_ClientPageSpace s k = Inr (s', root)"
    unfolding new_ClientPageSpace_def
    by (simp only: al pa r(1) [unfolded s2_def] sum.case prod.case)
  have 2: "free_frames s' = rest" using r(2) zf by simp
  have "mem s' t j = (if t = root \<and> j < 256 then 0
                             else if t = root \<and> j < 512 then mem s k j else mem s t j)" for t j
    using r(3) [rule_format, of t j] ne zl [of t j] zl [of k j] by (auto simp: load_def)
  then have 3: "mem s' = (\<lambda>t j. if t = root \<and> j < 256 then 0
                             else if t = root \<and> j < 512 then mem s k j else mem s t j)"
    by (intro ext)
  show ?thesis using 1 2 3 by blast
qed

lemma demo_client_state:
  "new_ClientPageSpace demo_kernel 0x1000 = Inr (demo_client, 0x2000)"
  "free_frames demo_client = [0x3000, 0x4000, 0x5000]"
  "mem demo_client = (\<lambda>t j. if t = 0x2000 \<and> j < 256 then 0
                      else if t = 0x2000 \<and> j < 512 then mem demo_kernel 0x1000 j
                      else mem demo_kernel t j)"
proof -
  have "\<exists>s'. new_ClientPageSpace demo_kernel 0x1000 = Inr (s', 0x2000)
          \<and> free_frames s' = [0x3000, 0x4000, 0x5000]
          \<and> mem s' = (\<lambda>t j. if t = 0x2000 \<and> j < 256 then 0
                      else if t = 0x2000 \<and> j < 512 then mem demo_kernel 0x1000 j
                      else mem demo_kernel t j)"
  proof (rule new_ClientPageSpace_result)
    show "free_frames demo_kernel = [0x2000, 0x3000, 0x4000, 0x5000]"
      by (simp add: demo_kernel_def)
    show "PageAccessor 0x2000 = Inr 0x2000" by (simp add: PageAccessor_def kPageSize_def)
    show "(0x1000::u64) \<noteq> 0x2000" by simp
    show "\<forall>i. 256 \<le> i \<and> i < 512 \<longrightarrow> load demo_kernel 0x1000 i AND kPagePresent \<noteq> 0"
    proof (intro allI impI)
      fix i :: nat
      assume "256 \<le> i \<and> i < 512"
      have "(0x100003 + 0x1000 * of_nat i :: u64) AND 1 = 1"
        by (simp add: and_one_eq flip: odd_iff_mod_2_eq_one)
      then show "load demo_kernel 0x1000 i AND kPagePresent \<noteq> 0"
        using \<open>256 \<le> i \<and> i < 512\<close> by (simp add: demo_kernel_def load_def kPagePresent_def)
    qed
  qed
  then obtain s' where s': "new_ClientPageSpace demo_kernel 0x1000 = Inr (s', 0x2000)"
      "free_frames s' = [0x3000, 0x4000, 0x5000]"
      "mem s' = (\<lambda>t j. if t = 0x2000 \<and> j < 256 then 0
                      else if t = 0x2000 \<and> j < 512 then mem demo_kernel 0x1000 j
                      else mem demo_kernel t j)"
    by blast
  have "demo_client = s'" by (simp add: demo_client_def s'(1))
  then show "new_ClientPageSpace demo_kernel 0x1000 = Inr (demo_client, 0x2000)"
    "free_frames demo_client = [0x3000, 0x4000, 0x5000]"
    "mem demo_client = (\<lambda>t j. if t = 0x2000 \<and> j < 256 then 0
                      else if t = 0x2000 \<and> j < 512 then mem demo_kernel 0x1000 j
                      else mem demo_kernel t j)"
    using s' by simp_all
qed


text \<open>Unfolding everything evaluates the page-table functions on concrete machines.\<close>

lemmas eval_defs = kernel_mapSingle4k_def kernel_unmapSingle4k_def kernel_ensure_table_def
  kernel_leaf_entry_def cache_bits_def allocate_def load_def store_def zero_table_def
  index4_def index3_def index2_def index1_def kPagePresent_def kPageWrite_def kPageUser_def
  kPagePwt_def kPagePcd_def kPagePat_def kPageGlobal_def kPageXd_def kAddrMask_def
  kPageSize_def page_access_write_def page_access_execute_def
  client_mapSingle4k_def client_ensure_table_def client_leaf_entry_def PageAccessor_def
  unmap_page_def unmapRange_def isMapped_def leaf_table_def leaf_present_def
  demo_machine_def demo_linked_def demo_mapped_def demo_va_def kernel_map_unmap_def
  progress_values_def walk_in_window_def allocator_fresh_def frames_valid_def walk_slots_def
  demo_kernel_def

section \<open>Page tables: the properties\<close>

text \<open>
  C3, as the claim states it, fails: a call with caching mode \<open>uncached\<close> does
  not succeed. Both \<open>mapSingle4k\<close> functions end in
  \<open>assert(caching_mode == null || caching_mode == writeBack)\<close> for every mode
  other than \<open>writeThrough\<close> and \<open>writeCombine\<close>.
\<close>

theorem uncached_rejected:
  "kernel_mapSingle4k demo_machine 0x1000 demo_va 0x5000 1 uncached = Inl AssertFailed
   \<and> client_mapSingle4k demo_machine 0x1000 demo_va 0x5000 True 1 uncached = Inl AssertFailed"
  by (simp add: eval_defs)

text \<open>
  C3 (amended): whenever \<open>KernelPageSpace::mapSingle4k\<close> or
  \<open>ClientPageSpace::mapSingle4k\<close> succeeds, the caching mode is not \<open>uncached\<close>,
  and the leaf entry that the call stores carries, among the cache-attribute
  bits PWT, PCD and PAT, exactly: none for \<open>writeBack\<close> and \<open>null\<close>, PWT for
  \<open>writeThrough\<close>, PAT and PWT for \<open>writeCombine\<close>.
\<close>

theorem cache_attribute_encoding:
  "(\<forall>s'. kernel_mapSingle4k s root v p fl cm = Inr s' \<longrightarrow>
      cm \<noteq> uncached \<and>
      (\<exists>s3 pt e. kernel_leaf_entry p fl cm = Inr e
         \<and> s' = store s3 pt (index1 v) e \<and> load s' pt (index1 v) = e
         \<and> e AND (kPagePwt OR kPagePcd OR kPagePat) =
             (case cm of writeThrough \<Rightarrow> kPagePwt
                       | writeCombine \<Rightarrow> kPagePat OR kPagePwt | _ \<Rightarrow> 0)))
   \<and> (\<forall>s'. client_mapSingle4k s root v p u fl cm = Inr s' \<longrightarrow>
      cm \<noteq> uncached \<and>
      (\<exists>s3 tbl1 e. client_leaf_entry p u fl cm = Inr e
         \<and> s' = store s3 tbl1 (index1 v) e \<and> load s' tbl1 (index1 v) = e
         \<and> e AND (kPagePwt OR kPagePcd OR kPagePat) =
             (case cm of writeThrough \<Rightarrow> kPagePwt
                       | writeCombine \<Rightarrow> kPagePat OR kPagePwt | _ \<Rightarrow> 0)))"
proof (intro conjI allI impI)
  fix s'
  assume m: "kernel_mapSingle4k s root v p fl cm = Inr s'"
  from m obtain s3 pt e where
    d: "p mod 0x1000 = 0" "kernel_leaf_entry p fl cm = Inr e" "s' = store s3 pt (index1 v) e"
    by (rule kernel_map_success)
  from d(1) have al: "p AND 0xFFF = 0" by (simp add: mod_page_eq_and)
  show "cm \<noteq> uncached" using d(2) by (rule leaf_entry_not_uncached)
  show "\<exists>s3 pt e. kernel_leaf_entry p fl cm = Inr e
         \<and> s' = store s3 pt (index1 v) e \<and> load s' pt (index1 v) = e
         \<and> e AND (kPagePwt OR kPagePcd OR kPagePat) =
             (case cm of writeThrough \<Rightarrow> kPagePwt
                       | writeCombine \<Rightarrow> kPagePat OR kPagePwt | _ \<Rightarrow> 0)"
    using d(2,3) kernel_leaf_cache [OF al d(2)] by (auto simp: load_store)
next
  fix s'
  assume m: "client_mapSingle4k s root v p u fl cm = Inr s'"
  from m obtain s3 tbl1 e where
    d: "p mod 0x1000 = 0" "client_leaf_entry p u fl cm = Inr e"
       "s' = store s3 tbl1 (index1 v) e"
    by (rule client_map_success)
  from d(1) have al: "p AND 0xFFF = 0" by (simp add: mod_page_eq_and)
  show "cm \<noteq> uncached" using d(2) by (rule leaf_entry_not_uncached)
  show "\<exists>s3 tbl1 e. client_leaf_entry p u fl cm = Inr e
         \<and> s' = store s3 tbl1 (index1 v) e \<and> load s' tbl1 (index1 v) = e
         \<and> e AND (kPagePwt OR kPagePcd OR kPagePat) =
             (case cm of writeThrough \<Rightarrow> kPagePwt
                       | writeCombine \<Rightarrow> kPagePat OR kPagePwt | _ \<Rightarrow> 0)"
    using d(2,3) client_leaf_cache [OF al d(2)] by (auto simp: load_store)
qed

theorem cache_attribute_encoding_witness:
  "kernel_mapSingle4k demo_machine 0x1000 demo_va 0x5000 1 writeCombine
     = Inr (projr (kernel_mapSingle4k demo_machine 0x1000 demo_va 0x5000 1 writeCombine))
   \<and> client_mapSingle4k demo_machine 0x1000 demo_va 0x5000 True 1 writeCombine
     = Inr (projr (client_mapSingle4k demo_machine 0x1000 demo_va 0x5000 True 1 writeCombine))
   \<and> (\<exists>pt. load (projr (kernel_mapSingle4k demo_machine 0x1000 demo_va 0x5000 1 writeCombine))
              pt (index1 demo_va) AND (kPagePwt OR kPagePcd OR kPagePat)
            = kPagePat OR kPagePwt)
   \<and> (\<exists>pt. load (projr (client_mapSingle4k demo_machine 0x1000 demo_va 0x5000 True 1 writeCombine))
              pt (index1 demo_va) AND (kPagePwt OR kPagePcd OR kPagePat)
            = kPagePat OR kPagePwt)"
proof -
  have k: "kernel_mapSingle4k demo_machine 0x1000 demo_va 0x5000 1 writeCombine
     = Inr (projr (kernel_mapSingle4k demo_machine 0x1000 demo_va 0x5000 1 writeCombine))"
    by (simp add: eval_defs)
  have c: "client_mapSingle4k demo_machine 0x1000 demo_va 0x5000 True 1 writeCombine
     = Inr (projr (client_mapSingle4k demo_machine 0x1000 demo_va 0x5000 True 1 writeCombine))"
    by (simp add: eval_defs)
  from cache_attribute_encoding [of demo_machine "0x1000" demo_va "0x5000" 1 writeCombine True]
    k c
  show ?thesis by (simp only: CachingMode.case) blast
qed




text \<open>
  C5, as the claim states it, fails: \<open>isMapped\<close> starts with
  \<open>assert(!(pointer & (kPageSize - 1)))\<close>, so an address inside a mapped page
  that is not page-aligned is an assertion failure.
\<close>

theorem isMapped_unaligned_asserts:
  "leaf_present demo_mapped 0x1000 0xFFFF800000201008
   \<and> isMapped demo_mapped 0x1000 0xFFFF800000201008 = Inl AssertFailed"
  by (simp add: eval_defs)

text \<open>
  C5 (amended): \<open>ClientPageSpace::isMapped(v)\<close> returns whether a present leaf
  entry exists for \<open>v\<close>, without an assertion failure, exactly when \<open>v\<close> is
  page-aligned, the root table is a page-aligned frame inside the identity
  window, and so is the target of every present intermediate entry on the walk;
  in every other case an assertion fails.
\<close>

theorem isMapped_aligned:
  "isMapped s root v =
     (if v AND (kPageSize - 1) = 0 \<and> root AND (kPageSize - 1) = 0
         \<and> root < 0x400000000000 \<and> walk_in_window s root v
      then Inr (leaf_present s root v)
      else Inl AssertFailed)"
proof (cases "v AND (kPageSize - 1) = 0 \<and> root AND (kPageSize - 1) = 0
                \<and> root < 0x400000000000")
  case True
  then have r: "PageAccessor root = Inr root" by (simp add: PageAccessor_def)
  show ?thesis
    using True
    by (simp add: isMapped_def leaf_present_def walk_in_window_def Let_def r
          PageAccessor_entry_iff)
next
  case False
  then have "v AND (kPageSize - 1) \<noteq> 0 \<or> PageAccessor root = Inl AssertFailed"
    by (auto simp: PageAccessor_def)
  then show ?thesis
    using False by (auto simp: isMapped_def)
qed

theorem isMapped_aligned_witness:
  "walk_in_window demo_mapped 0x1000 demo_va
   \<and> isMapped demo_mapped 0x1000 demo_va = Inr True
   \<and> isMapped demo_mapped 0x1000 (demo_va + 0x1000) = Inr False"
proof -
  have a: "demo_va AND (kPageSize - 1) = 0 \<and> (0x1000::u64) AND (kPageSize - 1) = 0
           \<and> (0x1000::u64) < 0x400000000000 \<and> walk_in_window demo_mapped 0x1000 demo_va"
    by (simp add: eval_defs)
  have b: "(demo_va + 0x1000) AND (kPageSize - 1) = 0
           \<and> walk_in_window demo_mapped 0x1000 (demo_va + 0x1000)"
    by (simp add: eval_defs)
  have c: "leaf_present demo_mapped 0x1000 demo_va"
          "\<not> leaf_present demo_mapped 0x1000 (demo_va + 0x1000)"
    by (simp_all add: eval_defs)
  show ?thesis
    using isMapped_aligned [of demo_mapped "0x1000" demo_va]
      isMapped_aligned [of demo_mapped "0x1000" "demo_va + 0x1000"] a b c
    by simp
qed

text \<open>
  C6: when \<open>KernelPageSpace::mapSingle4k\<close> succeeds, the leaf entry it installs
  has Global set and User clear, and the three intermediate entries it created
  or followed have User clear, both when the walk passed them and in the final
  state. When \<open>ClientPageSpace::mapSingle4k\<close> succeeds with \<open>user_page\<close>, the
  leaf entry has User set and so had each intermediate entry when the walk
  passed it. If moreover the allocator is fresh for the walk of \<open>v\<close>, these
  are the entries that the hardware walk for \<open>v\<close> finds in the final state:
  the walk reaches a present leaf, and in a kernel space all four entries on
  it have User clear and the leaf has Global set, while in a client space
  mapped with \<open>user_page\<close> all four entries on it have User set.
\<close>

theorem mapping_privilege_bits:
  "(\<forall>s'. kernel_mapSingle4k s root v p fl cm = Inr s' \<longrightarrow>
      (\<exists>s1 pdpt s2 pd s3 pt.
           kernel_ensure_table s root (index4 v) = Inr (s1, pdpt)
         \<and> kernel_ensure_table s1 pdpt (index3 v) = Inr (s2, pd)
         \<and> kernel_ensure_table s2 pd (index2 v) = Inr (s3, pt)
         \<and> load s1 root (index4 v) AND kPageUser = 0
         \<and> load s2 pdpt (index3 v) AND kPageUser = 0
         \<and> load s3 pd (index2 v) AND kPageUser = 0
         \<and> load s' root (index4 v) AND kPageUser = 0
         \<and> load s' pdpt (index3 v) AND kPageUser = 0
         \<and> load s' pd (index2 v) AND kPageUser = 0
         \<and> load s' pt (index1 v) AND kPageUser = 0
         \<and> load s' pt (index1 v) AND kPageGlobal \<noteq> 0
         \<and> (allocator_fresh s root v \<longrightarrow>
               walk_slots s' root v =
                 [(root, index4 v), (pdpt, index3 v), (pd, index2 v), (pt, index1 v)]
             \<and> leaf_present s' root v
             \<and> list_all (\<lambda>(t, i). load s' t i AND kPageUser = 0) (walk_slots s' root v)
             \<and> load s' (leaf_table s' root v) (index1 v) AND kPageGlobal \<noteq> 0)))
   \<and> (\<forall>s'. client_mapSingle4k s root v p True fl cm = Inr s' \<longrightarrow>
      (\<exists>s1 tbl3 s2 tbl2 s3 tbl1.
           client_ensure_table s root (index4 v) True = Inr (s1, tbl3)
         \<and> client_ensure_table s1 tbl3 (index3 v) True = Inr (s2, tbl2)
         \<and> client_ensure_table s2 tbl2 (index2 v) True = Inr (s3, tbl1)
         \<and> load s1 root (index4 v) AND kPageUser \<noteq> 0
         \<and> load s2 tbl3 (index3 v) AND kPageUser \<noteq> 0
         \<and> load s3 tbl2 (index2 v) AND kPageUser \<noteq> 0
         \<and> load s' tbl1 (index1 v) AND kPageUser \<noteq> 0
         \<and> (allocator_fresh s root v \<longrightarrow>
               walk_slots s' root v =
                 [(root, index4 v), (tbl3, index3 v), (tbl2, index2 v), (tbl1, index1 v)]
             \<and> leaf_present s' root v
             \<and> list_all (\<lambda>(t, i). load s' t i AND kPageUser \<noteq> 0) (walk_slots s' root v))))"
proof (intro conjI allI impI)
  fix s'
  assume m: "kernel_mapSingle4k s root v p fl cm = Inr s'"
  from m obtain s1 pdpt s2 pd s3 pt e where
    d: "p mod 0x1000 = 0"
       "kernel_ensure_table s root (index4 v) = Inr (s1, pdpt)"
       "kernel_ensure_table s1 pdpt (index3 v) = Inr (s2, pd)"
       "kernel_ensure_table s2 pd (index2 v) = Inr (s3, pt)"
       "kernel_leaf_entry p fl cm = Inr e" "s' = store s3 pt (index1 v) e"
       "load s3 pt (index1 v) AND kPagePresent = 0"
    by (rule kernel_map_success)
  from d(1) have al: "p AND 0xFFF = 0" by (simp add: mod_page_eq_and)
  note lb = kernel_leaf_bits [OF al d(5)]
  have u1: "load s1 root (index4 v) AND kPageUser = 0"
    by (rule kernel_ensure_table_entry(1) [OF d(2)])
  have u2: "load s2 pdpt (index3 v) AND kPageUser = 0"
    by (rule kernel_ensure_table_entry(1) [OF d(3)])
  have u3: "load s3 pd (index2 v) AND kPageUser = 0"
    by (rule kernel_ensure_table_entry(1) [OF d(4)])
  have u12: "load s2 root (index4 v) AND kPageUser = 0"
    by (rule kernel_ensure_table_keeps_user_clear [OF d(3) u1])
  have u13: "load s3 root (index4 v) AND kPageUser = 0"
    by (rule kernel_ensure_table_keeps_user_clear [OF d(4) u12])
  have u23: "load s3 pdpt (index3 v) AND kPageUser = 0"
    by (rule kernel_ensure_table_keeps_user_clear [OF d(4) u2])
  have f: "load s' t i AND kPageUser = 0" if "load s3 t i AND kPageUser = 0" for t i
    using that lb(2) by (simp add: d(6) load_store)
  have g: "load s' pt (index1 v) AND kPageGlobal \<noteq> 0"
    using lb(1) by (simp add: d(6) load_store kPageGlobal_def)
  have l: "load s' pt (index1 v) AND kPageUser = 0"
    using lb(2) by (simp add: d(6) load_store)
  have ep: "e AND kPagePresent \<noteq> 0" using lb(3) by (simp add: kPagePresent_def)
  have fin: "walk_slots s' root v =
                 [(root, index4 v), (pdpt, index3 v), (pd, index2 v), (pt, index1 v)]
             \<and> leaf_present s' root v
             \<and> list_all (\<lambda>(t, i). load s' t i AND kPageUser = 0) (walk_slots s' root v)
             \<and> load s' (leaf_table s' root v) (index1 v) AND kPageGlobal \<noteq> 0"
    if fr: "allocator_fresh s root v"
  proof -
    have fv: "frames_valid s" and tn: "tables_not_free s root [index4 v, index3 v, index2 v]"
      using fr by (simp_all add: allocator_fresh_def)
    note M = walk_installed [OF fv tn write_no_addr(1)
               kernel_ensure_table_level_step [OF d(2)]
               kernel_ensure_table_level_step [OF d(3)]
               kernel_ensure_table_level_step [OF d(4)] d(7) d(6)]
    have ws: "load s' root (index4 v) AND kAddrMask = pdpt"
             "load s' pdpt (index3 v) AND kAddrMask = pd"
             "load s' pd (index2 v) AND kAddrMask = pt"
      using M(1) by (auto simp: walk_slots_def Let_def)
    have lp: "leaf_present s' root v"
      using M(6) ep by (simp add: leaf_present_def Let_def ws M(5))
    have lt: "leaf_table s' root v = pt" by (simp add: leaf_table_def Let_def ws)
    have la: "list_all (\<lambda>(t, i). load s' t i AND kPageUser = 0) (walk_slots s' root v)"
      using f [OF u13] f [OF u23] f [OF u3] l by (simp add: M(1))
    show ?thesis using M(1) lp la g by (simp add: lt)
  qed
  show "\<exists>s1 pdpt s2 pd s3 pt.
           kernel_ensure_table s root (index4 v) = Inr (s1, pdpt)
         \<and> kernel_ensure_table s1 pdpt (index3 v) = Inr (s2, pd)
         \<and> kernel_ensure_table s2 pd (index2 v) = Inr (s3, pt)
         \<and> load s1 root (index4 v) AND kPageUser = 0
         \<and> load s2 pdpt (index3 v) AND kPageUser = 0
         \<and> load s3 pd (index2 v) AND kPageUser = 0
         \<and> load s' root (index4 v) AND kPageUser = 0
         \<and> load s' pdpt (index3 v) AND kPageUser = 0
         \<and> load s' pd (index2 v) AND kPageUser = 0
         \<and> load s' pt (index1 v) AND kPageUser = 0
         \<and> load s' pt (index1 v) AND kPageGlobal \<noteq> 0
         \<and> (allocator_fresh s root v \<longrightarrow>
               walk_slots s' root v =
                 [(root, index4 v), (pdpt, index3 v), (pd, index2 v), (pt, index1 v)]
             \<and> leaf_present s' root v
             \<and> list_all (\<lambda>(t, i). load s' t i AND kPageUser = 0) (walk_slots s' root v)
             \<and> load s' (leaf_table s' root v) (index1 v) AND kPageGlobal \<noteq> 0)"
    apply (rule exI [of _ s1], rule exI [of _ pdpt], rule exI [of _ s2], rule exI [of _ pd],
           rule exI [of _ s3], rule exI [of _ pt])
    apply (intro conjI)
    apply (rule d(2) d(3) d(4) u1 u2 u3 f [OF u13] f [OF u23] f [OF u3] l g impI fin
           | assumption)+
    done
next
  fix s'
  assume m: "client_mapSingle4k s root v p True fl cm = Inr s'"
  from m obtain s1 tbl3 s2 tbl2 s3 tbl1 e where
    d: "p mod 0x1000 = 0"
       "client_ensure_table s root (index4 v) True = Inr (s1, tbl3)"
       "client_ensure_table s1 tbl3 (index3 v) True = Inr (s2, tbl2)"
       "client_ensure_table s2 tbl2 (index2 v) True = Inr (s3, tbl1)"
       "client_leaf_entry p True fl cm = Inr e" "s' = store s3 tbl1 (index1 v) e"
       "load s3 tbl1 (index1 v) AND kPagePresent = 0"
    by (rule client_map_success)
  from d(1) have al: "p AND 0xFFF = 0" by (simp add: mod_page_eq_and)
  have l: "load s' tbl1 (index1 v) AND kPageUser \<noteq> 0"
    using client_leaf_user [OF al d(5)] by (simp add: d(6) load_store kPageUser_def)
  have u1: "load s1 root (index4 v) AND kPageUser \<noteq> 0"
    using client_ensure_table_entry(1) [OF d(2)] by simp
  have u2: "load s2 tbl3 (index3 v) AND kPageUser \<noteq> 0"
    using client_ensure_table_entry(1) [OF d(3)] by simp
  have u3: "load s3 tbl2 (index2 v) AND kPageUser \<noteq> 0"
    using client_ensure_table_entry(1) [OF d(4)] by simp
  have ep: "e AND kPagePresent \<noteq> 0"
    using d(5) present_or [of p]
    by (auto simp: client_leaf_entry_def Let_def or.assoc split: sum.splits if_splits)
  have fin: "walk_slots s' root v =
                 [(root, index4 v), (tbl3, index3 v), (tbl2, index2 v), (tbl1, index1 v)]
             \<and> leaf_present s' root v
             \<and> list_all (\<lambda>(t, i). load s' t i AND kPageUser \<noteq> 0) (walk_slots s' root v)"
    if fr: "allocator_fresh s root v"
  proof -
    have fv: "frames_valid s" and tn: "tables_not_free s root [index4 v, index3 v, index2 v]"
      using fr by (simp_all add: allocator_fresh_def)
    note a = client_ensure_table_level_step [OF d(2), simplified]
    note b = client_ensure_table_level_step [OF d(3), simplified]
    note c = client_ensure_table_level_step [OF d(4), simplified]
    note M = walk_installed [OF fv tn write_no_addr(2) a b c d(7) d(6)]
    have ws: "load s' root (index4 v) AND kAddrMask = tbl3"
             "load s' tbl3 (index3 v) AND kAddrMask = tbl2"
             "load s' tbl2 (index2 v) AND kAddrMask = tbl1"
      using M(1) by (auto simp: walk_slots_def Let_def)
    have lp: "leaf_present s' root v"
      using M(6) ep by (simp add: leaf_present_def Let_def ws M(5))
    have la: "list_all (\<lambda>(t, i). load s' t i AND kPageUser \<noteq> 0) (walk_slots s' root v)"
      using u1 u2 u3 l by (simp add: M(1) M(2) M(3) M(4))
    show ?thesis using M(1) lp la by simp
  qed
  show "\<exists>s1 tbl3 s2 tbl2 s3 tbl1.
           client_ensure_table s root (index4 v) True = Inr (s1, tbl3)
         \<and> client_ensure_table s1 tbl3 (index3 v) True = Inr (s2, tbl2)
         \<and> client_ensure_table s2 tbl2 (index2 v) True = Inr (s3, tbl1)
         \<and> load s1 root (index4 v) AND kPageUser \<noteq> 0
         \<and> load s2 tbl3 (index3 v) AND kPageUser \<noteq> 0
         \<and> load s3 tbl2 (index2 v) AND kPageUser \<noteq> 0
         \<and> load s' tbl1 (index1 v) AND kPageUser \<noteq> 0
         \<and> (allocator_fresh s root v \<longrightarrow>
               walk_slots s' root v =
                 [(root, index4 v), (tbl3, index3 v), (tbl2, index2 v), (tbl1, index1 v)]
             \<and> leaf_present s' root v
             \<and> list_all (\<lambda>(t, i). load s' t i AND kPageUser \<noteq> 0) (walk_slots s' root v))"
    apply (rule exI [of _ s1], rule exI [of _ tbl3], rule exI [of _ s2], rule exI [of _ tbl2],
           rule exI [of _ s3], rule exI [of _ tbl1])
    apply (intro conjI)
    apply (rule d(2) d(3) d(4) u1 u2 u3 l impI fin | assumption)+
    done
qed

theorem mapping_privilege_bits_witness:
  "allocator_fresh demo_kernel 0x1000 demo_va
   \<and> kernel_mapSingle4k demo_kernel 0x1000 demo_va 0x7000 1 writeBack
     = Inr (projr (kernel_mapSingle4k demo_kernel 0x1000 demo_va 0x7000 1 writeBack))
   \<and> walk_slots (projr (kernel_mapSingle4k demo_kernel 0x1000 demo_va 0x7000 1 writeBack))
        0x1000 demo_va = [(0x1000, 256), (0x200000, 0), (0x2000, 1), (0x3000, 1)]
   \<and> leaf_present (projr (kernel_mapSingle4k demo_kernel 0x1000 demo_va 0x7000 1 writeBack))
        0x1000 demo_va
   \<and> list_all (\<lambda>(t, i).
         load (projr (kernel_mapSingle4k demo_kernel 0x1000 demo_va 0x7000 1 writeBack)) t i
           AND kPageUser = 0)
        (walk_slots (projr (kernel_mapSingle4k demo_kernel 0x1000 demo_va 0x7000 1 writeBack))
           0x1000 demo_va)
   \<and> load (projr (kernel_mapSingle4k demo_kernel 0x1000 demo_va 0x7000 1 writeBack))
        0x3000 1 AND kPageGlobal \<noteq> 0
   \<and> new_ClientPageSpace demo_kernel 0x1000 = Inr (demo_client, 0x2000)
   \<and> allocator_fresh demo_client 0x2000 0x201000
   \<and> client_mapSingle4k demo_client 0x2000 0x201000 0x7000 True 1 writeBack
     = Inr (projr (client_mapSingle4k demo_client 0x2000 0x201000 0x7000 True 1 writeBack))
   \<and> walk_slots (projr (client_mapSingle4k demo_client 0x2000 0x201000 0x7000 True 1 writeBack))
        0x2000 0x201000 = [(0x2000, 0), (0x3000, 0), (0x4000, 1), (0x5000, 1)]
   \<and> leaf_present (projr (client_mapSingle4k demo_client 0x2000 0x201000 0x7000 True 1 writeBack))
        0x2000 0x201000
   \<and> list_all (\<lambda>(t, i).
         load (projr (client_mapSingle4k demo_client 0x2000 0x201000 0x7000 True 1 writeBack)) t i
           AND kPageUser \<noteq> 0)
        (walk_slots (projr (client_mapSingle4k demo_client 0x2000 0x201000 0x7000 True 1 writeBack))
           0x2000 0x201000)"
proof -
  define K where "K = projr (kernel_mapSingle4k demo_kernel 0x1000 demo_va 0x7000 1 writeBack)"
  define C where
    "C = projr (client_mapSingle4k demo_client 0x2000 0x201000 0x7000 True 1 writeBack)"
  have kf: "allocator_fresh demo_kernel 0x1000 demo_va" by (simp add: eval_defs)
  have k: "kernel_mapSingle4k demo_kernel 0x1000 demo_va 0x7000 1 writeBack = Inr K"
    unfolding K_def by (simp add: eval_defs)
  have kw: "walk_slots K 0x1000 demo_va = [(0x1000, 256), (0x200000, 0), (0x2000, 1), (0x3000, 1)]"
    unfolding K_def by (simp add: eval_defs)
  from mapping_privilege_bits [of demo_kernel "0x1000" demo_va "0x7000" 1 writeBack]
  have "\<exists>s1 pdpt s2 pd s3 pt.
           kernel_ensure_table demo_kernel 0x1000 (index4 demo_va) = Inr (s1, pdpt)
         \<and> kernel_ensure_table s1 pdpt (index3 demo_va) = Inr (s2, pd)
         \<and> kernel_ensure_table s2 pd (index2 demo_va) = Inr (s3, pt)
         \<and> load s1 0x1000 (index4 demo_va) AND kPageUser = 0
         \<and> load s2 pdpt (index3 demo_va) AND kPageUser = 0
         \<and> load s3 pd (index2 demo_va) AND kPageUser = 0
         \<and> load K 0x1000 (index4 demo_va) AND kPageUser = 0
         \<and> load K pdpt (index3 demo_va) AND kPageUser = 0
         \<and> load K pd (index2 demo_va) AND kPageUser = 0
         \<and> load K pt (index1 demo_va) AND kPageUser = 0
         \<and> load K pt (index1 demo_va) AND kPageGlobal \<noteq> 0
         \<and> (allocator_fresh demo_kernel 0x1000 demo_va \<longrightarrow>
               walk_slots K 0x1000 demo_va =
                 [(0x1000, index4 demo_va), (pdpt, index3 demo_va), (pd, index2 demo_va),
                  (pt, index1 demo_va)]
             \<and> leaf_present K 0x1000 demo_va
             \<and> list_all (\<lambda>(t, i). load K t i AND kPageUser = 0) (walk_slots K 0x1000 demo_va)
             \<and> load K (leaf_table K 0x1000 demo_va) (index1 demo_va) AND kPageGlobal \<noteq> 0)"
    using k by blast
  then obtain pdpt pd pt where
    k0: "load K pt (index1 demo_va) AND kPageGlobal \<noteq> 0"
        "allocator_fresh demo_kernel 0x1000 demo_va \<longrightarrow>
               walk_slots K 0x1000 demo_va =
                 [(0x1000, index4 demo_va), (pdpt, index3 demo_va), (pd, index2 demo_va),
                  (pt, index1 demo_va)]
             \<and> leaf_present K 0x1000 demo_va
             \<and> list_all (\<lambda>(t, i). load K t i AND kPageUser = 0) (walk_slots K 0x1000 demo_va)
             \<and> load K (leaf_table K 0x1000 demo_va) (index1 demo_va) AND kPageGlobal \<noteq> 0"
    by blast
  from k0(2) kf have
    k1: "leaf_present K 0x1000 demo_va"
        "list_all (\<lambda>(t, i). load K t i AND kPageUser = 0) (walk_slots K 0x1000 demo_va)"
    and k3: "walk_slots K 0x1000 demo_va =
                 [(0x1000, index4 demo_va), (pdpt, index3 demo_va), (pd, index2 demo_va),
                  (pt, index1 demo_va)]"
    by blast+
  have "pt = 0x3000" "index1 demo_va = 1" using k3 by (simp_all add: kw)
  then have k2: "load K 0x3000 1 AND kPageGlobal \<noteq> 0" using k0(1) by simp
  have cs: "new_ClientPageSpace demo_kernel 0x1000 = Inr (demo_client, 0x2000)"
    by (rule demo_client_state(1))
  note dc = demo_client_state(2,3)
  have cf: "allocator_fresh demo_client 0x2000 0x201000" by (simp add: eval_defs dc)
  have c: "client_mapSingle4k demo_client 0x2000 0x201000 0x7000 True 1 writeBack = Inr C"
    unfolding C_def by (simp add: eval_defs dc)
  have cw: "walk_slots C 0x2000 0x201000 = [(0x2000, 0), (0x3000, 0), (0x4000, 1), (0x5000, 1)]"
    unfolding C_def by (simp add: eval_defs dc)
  from mapping_privilege_bits [of demo_client "0x2000" "0x201000" "0x7000" 1 writeBack]
  have "\<exists>s1 tbl3 s2 tbl2 s3 tbl1.
           client_ensure_table demo_client 0x2000 (index4 0x201000) True = Inr (s1, tbl3)
         \<and> client_ensure_table s1 tbl3 (index3 0x201000) True = Inr (s2, tbl2)
         \<and> client_ensure_table s2 tbl2 (index2 0x201000) True = Inr (s3, tbl1)
         \<and> load s1 0x2000 (index4 0x201000) AND kPageUser \<noteq> 0
         \<and> load s2 tbl3 (index3 0x201000) AND kPageUser \<noteq> 0
         \<and> load s3 tbl2 (index2 0x201000) AND kPageUser \<noteq> 0
         \<and> load C tbl1 (index1 0x201000) AND kPageUser \<noteq> 0
         \<and> (allocator_fresh demo_client 0x2000 0x201000 \<longrightarrow>
               walk_slots C 0x2000 0x201000 =
                 [(0x2000, index4 0x201000), (tbl3, index3 0x201000), (tbl2, index2 0x201000),
                  (tbl1, index1 0x201000)]
             \<and> leaf_present C 0x2000 0x201000
             \<and> list_all (\<lambda>(t, i). load C t i AND kPageUser \<noteq> 0)
                  (walk_slots C 0x2000 0x201000))"
    using c by blast
  with cf have c1: "leaf_present C 0x2000 0x201000"
        "list_all (\<lambda>(t, i). load C t i AND kPageUser \<noteq> 0) (walk_slots C 0x2000 0x201000)"
    by blast+
  show ?thesis
    using kf k [unfolded K_def] kw [unfolded K_def] k1(1,2) [unfolded K_def] k2 [unfolded K_def]
      cs cf c [unfolded C_def] cw [unfolded C_def] c1 [unfolded C_def]
    by (intro conjI)
qed

text \<open>
  C9: a successful \<open>KernelPageSpace::unmapSingle4k\<close> changes exactly one entry,
  the present leaf entry of the walk, which loses its Present bit and nothing
  else; it returns that entry's address field and leaves the allocator alone.
  One step of \<open>ClientPageSpace::unmapRange\<close> does the same or nothing, and after
  the whole range every entry either has its old value or was present and lost
  only its Present bit, with the allocator unchanged (nothing is freed).
\<close>

theorem unmap_clears_only_present:
  "(\<forall>s' r. kernel_unmapSingle4k s root v = Inr (s', r) \<longrightarrow>
      load s (leaf_table s root v) (index1 v) AND kPagePresent \<noteq> 0
    \<and> s' = store s (leaf_table s root v) (index1 v)
               (load s (leaf_table s root v) (index1 v) AND NOT kPagePresent)
    \<and> r = load s (leaf_table s root v) (index1 v) AND kAddrMask
    \<and> free_frames s' = free_frames s)
   \<and> (\<forall>s'. unmap_page s root v mode = Inr s' \<longrightarrow>
      s' = s \<or>
      (load s (leaf_table s root v) (index1 v) AND kPagePresent \<noteq> 0
       \<and> s' = store s (leaf_table s root v) (index1 v)
                  (load s (leaf_table s root v) (index1 v) AND NOT kPagePresent)))
   \<and> (\<forall>s'. unmapRange s root v sz mode = Inr s' \<longrightarrow>
      free_frames s' = free_frames s
    \<and> (\<forall>t i. load s' t i = load s t i \<or>
              (load s t i AND kPagePresent \<noteq> 0
               \<and> load s' t i = load s t i AND NOT kPagePresent)))"
proof (intro conjI allI impI)
  fix s' r
  assume u: "kernel_unmapSingle4k s root v = Inr (s', r)"
  note k = kernel_unmap_success [OF u]
  show "load s (leaf_table s root v) (index1 v) AND kPagePresent \<noteq> 0"
    using k(1) by (simp add: leaf_present_def leaf_table_def Let_def)
  show "s' = store s (leaf_table s root v) (index1 v)
               (load s (leaf_table s root v) (index1 v) AND NOT kPagePresent)"
    by (rule k(2))
  show "r = load s (leaf_table s root v) (index1 v) AND kAddrMask" by (rule k(3))
  show "free_frames s' = free_frames s" by (subst k(2)) simp
next
  fix s'
  assume u: "unmap_page s root v mode = Inr s'"
  show "s' = s \<or>
      (load s (leaf_table s root v) (index1 v) AND kPagePresent \<noteq> 0
       \<and> s' = store s (leaf_table s root v) (index1 v)
                  (load s (leaf_table s root v) (index1 v) AND NOT kPagePresent))"
    using unmap_page_success [OF u]
    by (auto simp: leaf_present_def leaf_table_def Let_def)
next
  fix s'
  assume u: "unmapRange s root v sz mode = Inr s'"
  then have "unmapRange_loop s root v mode (progress_values sz) = Inr s'"
    by (simp add: unmapRange_def split: if_splits)
  then have o: "only_present_cleared s s'" by (rule unmapRange_loop_only_present)
  show "free_frames s' = free_frames s"
    using o by (simp add: only_present_cleared_def)
  fix t i
  show "load s' t i = load s t i \<or>
              (load s t i AND kPagePresent \<noteq> 0
               \<and> load s' t i = load s t i AND NOT kPagePresent)"
    using o by (simp add: only_present_cleared_def)
qed

theorem unmap_clears_only_present_witness:
  "kernel_unmapSingle4k demo_mapped 0x1000 demo_va
     = Inr (store demo_mapped 0x4000 1 0x8000000000005102, 0x5000)
   \<and> unmap_page demo_mapped 0x1000 demo_va remap
     = Inr (store demo_mapped 0x4000 1 0x8000000000005102)
   \<and> unmapRange demo_mapped 0x1000 demo_va 0x2000 remap
     = Inr (store demo_mapped 0x4000 1 0x8000000000005102)
   \<and> load demo_mapped (leaf_table demo_mapped 0x1000 demo_va) (index1 demo_va)
       AND kPagePresent \<noteq> 0
   \<and> free_frames (store demo_mapped 0x4000 1 0x8000000000005102) = free_frames demo_mapped"
proof -
  have k: "kernel_unmapSingle4k demo_mapped 0x1000 demo_va
     = Inr (store demo_mapped 0x4000 1 0x8000000000005102, 0x5000)"
    by (simp add: eval_defs)
  have p: "unmap_page demo_mapped 0x1000 demo_va remap
     = Inr (store demo_mapped 0x4000 1 0x8000000000005102)"
    by (simp add: eval_defs)
  have r: "unmapRange demo_mapped 0x1000 demo_va 0x2000 remap
     = Inr (store demo_mapped 0x4000 1 0x8000000000005102)"
    by (simp add: eval_defs upt_rec)
  from unmap_clears_only_present [of demo_mapped "0x1000" demo_va remap "0x2000"] k p r
  show ?thesis by blast
qed

section \<open>Bindings and shootdown: auxiliary facts\<close>

lemma activate_loop_found:
  assumes "t < maxPcidCount"
      and "grab k (boundSpace (binding k c t)) = Some space"
      and "\<forall>j. i \<le> j \<and> j < t \<longrightarrow> grab k (boundSpace (binding k c j)) \<noteq> Some space"
      and "i \<le> t" and "havePcids (cpus k c) \<or> t = i"
  shows "activate_loop k c space i lru = makePrimary k c t"
  using assms
proof (induction k c space i lru rule: activate_loop.induct)
  case (1 k c space i lru)
  show ?case
  proof (cases "i = t")
    case True
    then show ?thesis using "1.prems" by (subst activate_loop.simps) simp
  next
    case False
    then have lt: "i < t" using "1.prems" by simp
    then have nb: "grab k (boundSpace (binding k c i)) \<noteq> Some space"
      using "1.prems" by simp
    have hp: "havePcids (cpus k c)" using "1.prems" False by auto
    have il: "i < maxPcidCount" using lt "1.prems" by simp
    have "activate_loop k c space (i + 1)
            (if primaryStamp (binding k c i) < primaryStamp (binding k c lru) then i else lru)
          = makePrimary k c t"
      using "1.prems" lt hp il nb by (intro "1.IH") auto
    then show ?thesis
      using il nb hp by (subst activate_loop.simps) simp
  qed
qed

lemma activate_loop_lru:
  assumes "havePcids (cpus k c)"
      and "\<forall>j. i \<le> j \<and> j < maxPcidCount \<longrightarrow>
                 grab k (boundSpace (binding k c j)) \<noteq> Some space"
      and "lru < maxPcidCount"
  shows "\<exists>m < maxPcidCount.
           activate_loop k c space i lru = rebind_and_makePrimary k c m space
         \<and> primaryStamp (binding k c m) \<le> primaryStamp (binding k c lru)
         \<and> (\<forall>j. i \<le> j \<and> j < maxPcidCount \<longrightarrow>
                 primaryStamp (binding k c m) \<le> primaryStamp (binding k c j))"
  using assms
proof (induction k c space i lru rule: activate_loop.induct)
  case (1 k c space i lru)
  show ?case
  proof (cases "i < maxPcidCount")
    case False
    then show ?thesis
      using "1.prems" by (subst activate_loop.simps) auto
  next
    case True
    define lru' where
      "lru' = (if primaryStamp (binding k c i) < primaryStamp (binding k c lru) then i else lru)"
    have nb: "grab k (boundSpace (binding k c i)) \<noteq> Some space"
      using "1.prems" True by simp
    have l': "lru' < maxPcidCount" using True "1.prems" by (simp add: lru'_def)
    have "\<exists>m < maxPcidCount.
           activate_loop k c space (i + 1) lru' = rebind_and_makePrimary k c m space
         \<and> primaryStamp (binding k c m) \<le> primaryStamp (binding k c lru')
         \<and> (\<forall>j. i + 1 \<le> j \<and> j < maxPcidCount \<longrightarrow>
                 primaryStamp (binding k c m) \<le> primaryStamp (binding k c j))"
      unfolding lru'_def
      using "1.prems" True nb l' by (intro "1.IH") (auto simp: lru'_def)
    then obtain m where m: "m < maxPcidCount"
        "activate_loop k c space (i + 1) lru' = rebind_and_makePrimary k c m space"
        "primaryStamp (binding k c m) \<le> primaryStamp (binding k c lru')"
        "\<forall>j. i + 1 \<le> j \<and> j < maxPcidCount \<longrightarrow>
                 primaryStamp (binding k c m) \<le> primaryStamp (binding k c j)"
      by blast
    have a: "activate_loop k c space i lru = rebind_and_makePrimary k c m space"
      using True nb "1.prems"(1) m(2)
      by (subst activate_loop.simps) (simp add: lru'_def)
    have b: "primaryStamp (binding k c lru') \<le> primaryStamp (binding k c lru)"
            "primaryStamp (binding k c lru') \<le> primaryStamp (binding k c i)"
      by (auto simp: lru'_def)
    have c: "primaryStamp (binding k c m) \<le> primaryStamp (binding k c j)"
      if "i \<le> j" "j < maxPcidCount" for j
    proof (cases "j = i")
      case True
      then show ?thesis using m(3) b(2) by simp
    next
      case False
      then show ?thesis using that m(4) by simp
    qed
    show ?thesis using m(1) a m(3) b(1) c by (intro exI [of _ m]) auto
  qed
qed

lemma activate_loop_no_pcids:
  assumes "\<not> havePcids (cpus k c)" and "i < maxPcidCount"
      and "grab k (boundSpace (binding k c i)) \<noteq> Some space"
  shows "activate_loop k c space i lru = rebind_and_makePrimary k c lru space"
  using assms by (subst activate_loop.simps) simp

lemmas kernel_update_defs = set_binding_def set_space_def emit_def binding_def

lemma makePrimary_effect:
  assumes "makePrimary k c b = Inr k'"
  shows "spaces k' = spaces k" and "alive k' = alive k" and "nodes k' = nodes k"
    and "binding k' c b = (binding k c b)\<lparr>wasRebound := False,
            primaryStamp := nextStamp (pageContext (cpus k c))\<rparr>"
    and "\<And>j. j \<noteq> b \<Longrightarrow> binding k' c j = binding k c j"
    and "pageContext (cpus k' c) =
           \<lparr>nextStamp = nextStamp (pageContext (cpus k c)) + 1, primaryBinding = Some b\<rparr>"
    and "havePcids (cpus k' c) = havePcids (cpus k c)"
    and "wasRebound (binding k c b) \<or> primaryBinding (pageContext (cpus k c)) \<noteq> Some b
           \<Longrightarrow> grab k (boundSpace (binding k c b)) \<noteq> None"
  using assms
  by (auto simp: makePrimary_def Let_def kernel_update_defs
           split: if_splits option.splits sum.splits)

lemma rebind_effect:
  assumes "rebind k c b space = Inr k'"
  shows "alive k' = alive k"
    and "\<And>j. primaryStamp (binding k' c j) = primaryStamp (binding k c j)"
    and "\<And>j. j \<noteq> b \<Longrightarrow> binding k' c j = binding k c j"
    and "pageContext (cpus k' c) = pageContext (cpus k c)"
    and "havePcids (cpus k' c) = havePcids (cpus k c)"
    and "(k' = k \<and> grab k (boundSpace (binding k c b)) = Some space)
         \<or> (boundSpace (binding k' c b) = Some space \<and> wasRebound (binding k' c b))"
  using assms
  by (auto simp: rebind_def Let_def kernel_update_defs
           split: if_splits option.splits prod.splits)

lemma activate_loop_result:
  assumes "lru < maxPcidCount"
  shows "(\<exists>i < maxPcidCount. bound_to k c i space
            \<and> activate_loop k c space i0 lru = makePrimary k c i)
       \<or> (\<exists>m < maxPcidCount. activate_loop k c space i0 lru
                                = rebind_and_makePrimary k c m space)"
  using assms
proof (induction k c space i0 lru rule: activate_loop.induct)
  case (1 k c space i lru)
  show ?case
  proof (cases "i < maxPcidCount")
    case False
    then show ?thesis using "1.prems" by (subst activate_loop.simps) auto
  next
    case il: True
    show ?thesis
    proof (cases "grab k (boundSpace (binding k c i)) = Some space")
      case True
      then show ?thesis
        using il by (subst activate_loop.simps) (auto simp: bound_to_def)
    next
      case nb: False
      show ?thesis
      proof (cases "havePcids (cpus k c)")
        case False
        then show ?thesis
          using il nb "1.prems" by (subst activate_loop.simps) auto
      next
        case True
        define lru' where "lru' =
          (if primaryStamp (binding k c i) < primaryStamp (binding k c lru) then i else lru)"
        have l': "lru' < maxPcidCount" using il "1.prems" by (simp add: lru'_def)
        have "(\<exists>t < maxPcidCount. bound_to k c t space
                 \<and> activate_loop k c space (i + 1) lru' = makePrimary k c t)
            \<or> (\<exists>m < maxPcidCount. activate_loop k c space (i + 1) lru'
                                = rebind_and_makePrimary k c m space)"
          unfolding lru'_def using il nb True l' by (intro "1.IH") (auto simp: lru'_def)
        moreover have "activate_loop k c space i lru = activate_loop k c space (i + 1) lru'"
          using il nb True by (subst activate_loop.simps) (simp add: lru'_def)
        ultimately show ?thesis by simp
      qed
    qed
  qed
qed

lemma grab_Some_iff: "grab k w = Some sp \<longleftrightarrow> w = Some sp \<and> alive k sp"
  by (auto simp: grab_def split: option.splits)

lemma makePrimary_post:
  assumes m: "makePrimary k c b = Inr k'" and bd: "bound_to k c b space"
      and st: "\<forall>j < maxPcidCount. j \<noteq> b \<longrightarrow>
                 primaryStamp (binding k c j) < nextStamp (pageContext (cpus k c))"
  shows "primaryBinding (pageContext (cpus k' c)) = Some b \<and> bound_to k' c b space
       \<and> \<not> wasRebound (binding k' c b)
       \<and> (\<forall>j < maxPcidCount. j \<noteq> b \<longrightarrow>
             primaryStamp (binding k' c j) < primaryStamp (binding k' c b))"
  using makePrimary_effect(2,4,5,6) [OF m] bd st
  by (simp add: bound_to_def grab_Some_iff)

text \<open>
  The hypotheses of the activation properties are invariants of the code: they
  hold after bring-up and \<open>activate\<close> keeps them (the clock one until the
  64-bit \<open>_nextStamp\<close> would wrap).
\<close>

lemma word_less_succ: "(x::u64) \<noteq> - 1 \<Longrightarrow> x < x + 1"
  by (metis inc_less_eq_triv_imp linorder_less_linear word_le_less_eq)

lemma boot_stamps_behind_clock: "stamps_behind_clock (boot n have_pcids) c"
  by (simp add: stamps_behind_clock_def boot_def binding_def new_PageBinding_def
        new_PageContext_def)

lemma boot_only_first_bound: "only_first_bound (boot n have_pcids) c"
  by (simp add: only_first_bound_def boot_def binding_def new_PageBinding_def)

lemma makePrimary_keeps_stamps_behind_clock:
  assumes m: "makePrimary k c b = Inr k'" and sb: "stamps_behind_clock k c"
      and nw: "nextStamp (pageContext (cpus k c)) \<noteq> - 1"
  shows "stamps_behind_clock k' c"
  unfolding stamps_behind_clock_def
proof (intro allI impI)
  fix j
  assume j: "j < maxPcidCount"
  let ?ns = "nextStamp (pageContext (cpus k c))"
  have n': "nextStamp (pageContext (cpus k' c)) = ?ns + 1"
    using makePrimary_effect(6) [OF m] by simp
  have lt: "?ns < ?ns + 1" using nw by (rule word_less_succ)
  show "primaryStamp (binding k' c j) < nextStamp (pageContext (cpus k' c))"
  proof (cases "j = b")
    case True
    then show ?thesis using makePrimary_effect(4) [OF m] n' lt by simp
  next
    case False
    then have "primaryStamp (binding k' c j) < ?ns"
      using makePrimary_effect(5) [OF m] sb j by (simp add: stamps_behind_clock_def)
    then show ?thesis using n' lt by simp
  qed
qed

lemma activate_keeps_stamps_behind_clock:
  assumes a: "activate k c space = Inr k'" and sb: "stamps_behind_clock k c"
      and nw: "nextStamp (pageContext (cpus k c)) \<noteq> - 1"
  shows "stamps_behind_clock k' c"
proof -
  have "(\<exists>i < maxPcidCount. bound_to k c i space
            \<and> activate k c space = makePrimary k c i)
       \<or> (\<exists>m < maxPcidCount. activate k c space = rebind_and_makePrimary k c m space)"
    unfolding activate_def by (rule activate_loop_result) (simp add: maxPcidCount_def)
  then show ?thesis
  proof (elim disjE exE conjE)
    fix i
    assume "activate k c space = makePrimary k c i"
    with a have "makePrimary k c i = Inr k'" by simp
    then show ?thesis using sb nw by (rule makePrimary_keeps_stamps_behind_clock)
  next
    fix m
    assume "activate k c space = rebind_and_makePrimary k c m space"
    with a obtain k1 where r: "rebind k c m space = Inr k1"
        and p: "makePrimary k1 c m = Inr k'"
      by (auto simp: rebind_and_makePrimary_def split: sum.splits)
    note R = rebind_effect [OF r]
    have sb1: "stamps_behind_clock k1 c"
      using sb R(2,4) by (simp add: stamps_behind_clock_def)
    have nw1: "nextStamp (pageContext (cpus k1 c)) \<noteq> - 1" using nw R(4) by simp
    show ?thesis by (rule makePrimary_keeps_stamps_behind_clock [OF p sb1 nw1])
  qed
qed

lemma activate_keeps_only_first_bound:
  assumes a: "activate k c space = Inr k'" and np: "\<not> havePcids (cpus k c)"
      and ofb: "only_first_bound k c"
  shows "only_first_bound k' c"
proof -
  have z: "0 < maxPcidCount" by (simp add: maxPcidCount_def)
  have "activate_loop k c space 0 0 =
          (if grab k (boundSpace (binding k c 0)) = Some space then makePrimary k c 0
           else rebind_and_makePrimary k c 0 space)"
    using np z by (subst activate_loop.simps) simp
  then have "activate k c space = makePrimary k c 0
      \<or> activate k c space = rebind_and_makePrimary k c 0 space"
    by (simp add: activate_def)
  then have "\<forall>j. j \<noteq> 0 \<longrightarrow> binding k' c j = binding k c j"
  proof
    assume "activate k c space = makePrimary k c 0"
    with a have "makePrimary k c 0 = Inr k'" by simp
    then show ?thesis using makePrimary_effect(5) by blast
  next
    assume "activate k c space = rebind_and_makePrimary k c 0 space"
    with a obtain k1 where r: "rebind k c 0 space = Inr k1"
        and p: "makePrimary k1 c 0 = Inr k'"
      by (auto simp: rebind_and_makePrimary_def split: sum.splits)
    show ?thesis using rebind_effect(3) [OF r] makePrimary_effect(5) [OF p] by simp
  qed
  then show ?thesis using ofb by (simp add: only_first_bound_def)
qed

text \<open>
  Hence they hold in every state reached from bring-up: the clock invariant for
  runs of fewer than \<open>2 ^ 64 - 1\<close> operations (each operation advances a clock
  at most once), the other one always.
\<close>

lemma makePrimary_other_cpu:
  "makePrimary k c b = Inr k' \<Longrightarrow> c' \<noteq> c \<Longrightarrow> cpus k' c' = cpus k c'"
  by (auto simp: makePrimary_def Let_def kernel_update_defs
           split: if_splits option.splits sum.splits)

lemma rebind_other_cpu:
  "rebind k c b space = Inr k' \<Longrightarrow> c' \<noteq> c \<Longrightarrow> cpus k' c' = cpus k c'"
  by (auto simp: rebind_def Let_def kernel_update_defs
           split: if_splits option.splits prod.splits)

lemma shootdown_effect:
  assumes "shootdown k c b = Inr k'"
  shows "pageContext (cpus k' c') = pageContext (cpus k c')"
    and "havePcids (cpus k' c') = havePcids (cpus k c')"
    and "primaryStamp (binding k' c' j) = primaryStamp (binding k c' j)"
    and "boundSpace (binding k' c' j) = boundSpace (binding k c' j)
         \<or> boundSpace (binding k' c' j) = None"
  using assms
  by (auto simp: shootdown_def Let_def kernel_update_defs
           split: if_splits option.splits sum.splits prod.splits)

lemma submitShootdown_cpus: "cpus (submitShootdown k sp node) = cpus k"
  by (simp add: submitShootdown_def Let_def kernel_update_defs)


lemma activate_effect:
  assumes a: "activate k c space = Inr k'"
  shows "c' \<noteq> c \<Longrightarrow> cpus k' c' = cpus k c'"
    and "nextStamp (pageContext (cpus k' c)) = nextStamp (pageContext (cpus k c)) + 1"
    and "havePcids (cpus k' c) = havePcids (cpus k c)"
proof -
  have "(\<exists>i < maxPcidCount. bound_to k c i space
            \<and> activate k c space = makePrimary k c i)
       \<or> (\<exists>m < maxPcidCount. activate k c space = rebind_and_makePrimary k c m space)"
    unfolding activate_def by (rule activate_loop_result) (simp add: maxPcidCount_def)
  then have "(c' \<noteq> c \<longrightarrow> cpus k' c' = cpus k c')
     \<and> nextStamp (pageContext (cpus k' c)) = nextStamp (pageContext (cpus k c)) + 1
     \<and> havePcids (cpus k' c) = havePcids (cpus k c)"
  proof (elim disjE exE conjE)
    fix i
    assume "activate k c space = makePrimary k c i"
    with a have m: "makePrimary k c i = Inr k'" by simp
    show ?thesis
      using makePrimary_effect(6,7) [OF m] makePrimary_other_cpu [OF m] by simp
  next
    fix m
    assume "activate k c space = rebind_and_makePrimary k c m space"
    with a obtain k1 where r: "rebind k c m space = Inr k1"
        and p: "makePrimary k1 c m = Inr k'"
      by (auto simp: rebind_and_makePrimary_def split: sum.splits)
    show ?thesis
      using makePrimary_effect(6,7) [OF p] makePrimary_other_cpu [OF p]
        rebind_effect(4,5) [OF r] rebind_other_cpu [OF r] by simp
  qed
  then show "c' \<noteq> c \<Longrightarrow> cpus k' c' = cpus k c'"
    and "nextStamp (pageContext (cpus k' c)) = nextStamp (pageContext (cpus k c)) + 1"
    and "havePcids (cpus k' c) = havePcids (cpus k c)"
    by simp_all
qed

lemma stamps_behind_clock_cong:
  "cpus k' c = cpus k c \<Longrightarrow> stamps_behind_clock k' c = stamps_behind_clock k c"
  by (simp add: stamps_behind_clock_def binding_def)

lemma unat_succ_le:
  assumes "unat (x::u64) \<le> 1 + m" shows "unat (x + 1) \<le> 1 + Suc m"
proof -
  have "unat (x + 1) = (unat x + 1) mod 2 ^ 64" by (simp add: unat_word_ariths)
  also have "\<dots> \<le> unat x + 1" by (rule mod_less_eq_dividend)
  finally show ?thesis using assms by simp
qed


lemma unat_not_max:
  assumes "unat (x::u64) \<le> 1 + m" and "m < 2 ^ 64 - 2" shows "x \<noteq> - 1"
proof
  assume "x = - 1"
  then have "unat x = 2 ^ 64 - 1"
    by (simp add: unsigned_minus_1_eq_mask mask_eq_exp_minus_1)
  with assms show False by simp
qed

lemma clock_bounded_unchanged:
  assumes cb: "clock_bounded m k"
      and ctx: "\<And>c. pageContext (cpus k' c) = pageContext (cpus k c)"
      and st: "\<And>c j. primaryStamp (binding k' c j) = primaryStamp (binding k c j)"
  shows "clock_bounded (Suc m) k'"
  unfolding clock_bounded_def stamps_behind_clock_def
proof (intro allI conjI impI)
  fix c j
  assume "j < maxPcidCount"
  then show "primaryStamp (binding k' c j) < nextStamp (pageContext (cpus k' c))"
    using cb by (simp add: ctx st clock_bounded_def stamps_behind_clock_def)
next
  fix c
  have "unat (nextStamp (pageContext (cpus k c))) \<le> 1 + m"
    using cb by (simp add: clock_bounded_def)
  then show "unat (nextStamp (pageContext (cpus k' c))) \<le> 1 + Suc m"
    by (simp add: ctx)
qed

lemma perform_clock_bounded:
  assumes cb: "clock_bounded m k" and m: "m < 2 ^ 64 - 2" and p: "perform k x = Inr k'"
  shows "clock_bounded (Suc m) k'"
proof (cases x)
  case (DoActivate c space)
  with p have a: "activate k c space = Inr k'" by simp
  note E = activate_effect [OF a]
  have nb: "unat (nextStamp (pageContext (cpus k c))) \<le> 1 + m"
    using cb by (simp add: clock_bounded_def)
  have nw: "nextStamp (pageContext (cpus k c)) \<noteq> - 1"
    by (rule unat_not_max [OF nb m])
  have sb: "stamps_behind_clock k c" using cb by (simp add: clock_bounded_def)
  have 1: "stamps_behind_clock k' c"
    by (rule activate_keeps_stamps_behind_clock [OF a sb nw])
  have 2: "unat (nextStamp (pageContext (cpus k' c))) \<le> 1 + Suc m"
    using E(2) unat_succ_le [OF nb] by simp
  show ?thesis
    unfolding clock_bounded_def
  proof (intro allI)
    fix c'
    show "stamps_behind_clock k' c'
          \<and> unat (nextStamp (pageContext (cpus k' c'))) \<le> 1 + Suc m"
    proof (cases "c' = c")
      case True
      then show ?thesis using 1 2 by simp
    next
      case False
      then have eq: "cpus k' c' = cpus k c'" by (rule E(1))
      have "stamps_behind_clock k c'"
        and "unat (nextStamp (pageContext (cpus k c'))) \<le> 1 + m"
        using cb by (simp_all add: clock_bounded_def)
      then show ?thesis
        by (simp add: eq stamps_behind_clock_cong [OF eq])
    qed
  qed
next
  case (DoSubmit sp node a sz)
  with p have "cpus k' = cpus k"
    by (auto simp: submitShootdown_cpus with_node_def)
  then show ?thesis
    by (intro clock_bounded_unchanged [OF cb]) (simp_all add: binding_def)
next
  case (DoShootdown c b)
  with p have s: "shootdown k c b = Inr k'" by simp
  show ?thesis
    by (intro clock_bounded_unchanged [OF cb] shootdown_effect(1,3) [OF s])
next
  case (DoDrop sp)
  with p have "cpus k' = cpus k" by auto
  then show ?thesis
    by (intro clock_bounded_unchanged [OF cb]) (simp_all add: binding_def)
qed

lemma run_clock_bounded:
  assumes "clock_bounded m k" and "m + length xs < 2 ^ 64 - 1" and "run k xs = Inr k'"
  shows "clock_bounded (m + length xs) k'"
  using assms
proof (induction xs arbitrary: k m)
  case Nil
  then show ?case by simp
next
  case (Cons x xs)
  from Cons.prems(3) obtain k1 where p: "perform k x = Inr k1" and r: "run k1 xs = Inr k'"
    by (auto split: sum.splits)
  have m: "m < 2 ^ 64 - 2" using Cons.prems(2) by simp
  have "clock_bounded (Suc m) k1" by (rule perform_clock_bounded [OF Cons.prems(1) m p])
  then have "clock_bounded (Suc m + length xs) k'"
    using Cons.prems(2) r by (intro Cons.IH) simp_all
  then show ?case by simp
qed

lemma boot_clock_bounded: "clock_bounded 0 (boot n have_pcids)"
proof -
  have "unat (nextStamp (pageContext (cpus (boot n have_pcids) c))) \<le> 1" for c
    by (simp add: boot_def new_PageContext_def)
  then show ?thesis by (simp add: clock_bounded_def boot_stamps_behind_clock)
qed

lemma reachable_stamps_behind_clock:
  assumes "run (boot n have_pcids) xs = Inr k" and "length xs < 2 ^ 64 - 1"
  shows "stamps_behind_clock k c"
  using run_clock_bounded [OF boot_clock_bounded _ assms(1)] assms(2)
  by (simp add: clock_bounded_def)

lemma perform_first_only:
  assumes fo: "first_only k" and p: "perform k x = Inr k'"
  shows "first_only k'"
proof (cases x)
  case (DoActivate c space)
  with p have a: "activate k c space = Inr k'" by simp
  note E = activate_effect [OF a]
  have np: "\<not> havePcids (cpus k c)" and ofb: "only_first_bound k c"
    using fo by (simp_all add: first_only_def)
  have 1: "only_first_bound k' c" by (rule activate_keeps_only_first_bound [OF a np ofb])
  show ?thesis
    unfolding first_only_def
  proof (intro allI)
    fix c'
    show "\<not> havePcids (cpus k' c') \<and> only_first_bound k' c'"
    proof (cases "c' = c")
      case True
      then show ?thesis using 1 E(3) np by simp
    next
      case False
      then have "cpus k' c' = cpus k c'" by (rule E(1))
      then show ?thesis
        using fo by (simp add: first_only_def only_first_bound_def binding_def)
    qed
  qed
next
  case (DoSubmit sp node a sz)
  with p have "cpus k' = cpus k"
    by (auto simp: submitShootdown_cpus with_node_def)
  then show ?thesis
    using fo by (simp add: first_only_def only_first_bound_def binding_def)
next
  case (DoShootdown c b)
  with p have s: "shootdown k c b = Inr k'" by simp
  show ?thesis
    unfolding first_only_def only_first_bound_def
  proof (intro allI conjI impI)
    fix c'
    show "\<not> havePcids (cpus k' c')"
      using fo shootdown_effect(2) [OF s] by (simp add: first_only_def)
    fix i
    assume "0 < i \<and> i < maxPcidCount"
    then have "boundSpace (binding k c' i) = None"
      using fo by (simp add: first_only_def only_first_bound_def)
    then show "boundSpace (binding k' c' i) = None"
      using shootdown_effect(4) [OF s, of c' i] by simp
  qed
next
  case (DoDrop sp)
  with p have "cpus k' = cpus k" by auto
  then show ?thesis
    using fo by (simp add: first_only_def only_first_bound_def binding_def)
qed

lemma run_first_only:
  "first_only k \<Longrightarrow> run k xs = Inr k' \<Longrightarrow> first_only k'"
proof (induction xs arbitrary: k)
  case Nil
  then show ?case by simp
next
  case (Cons x xs)
  from Cons.prems(2) obtain k1 where p: "perform k x = Inr k1" and r: "run k1 xs = Inr k'"
    by (auto split: sum.splits)
  show ?case
    by (rule Cons.IH [OF perform_first_only [OF Cons.prems(1) p] r])
qed

lemma reachable_only_first_bound:
  assumes "run (boot n False) xs = Inr k"
  shows "\<not> havePcids (cpus k c) \<and> only_first_bound k c"
proof -
  have "first_only (boot n False)"
    by (simp add: first_only_def boot_only_first_bound) (simp add: boot_def)
  from run_first_only [OF this assms] show ?thesis by (simp add: first_only_def)
qed

lemma reachable_have_pcids:
  assumes "run (boot n True) xs = Inr k"
  shows "havePcids (cpus k c)"
  using assms
proof -
  have g: "(\<forall>c. havePcids (cpus k0 c)) \<Longrightarrow> run k0 xs = Inr k
           \<Longrightarrow> (\<forall>c. havePcids (cpus k c))" for k0
  proof (induction xs arbitrary: k0)
    case Nil
    then show ?case by simp
  next
    case (Cons x xs)
    from Cons.prems(2) obtain k1 where p: "perform k0 x = Inr k1"
        and r: "run k1 xs = Inr k"
      by (auto split: sum.splits)
    have "\<forall>c. havePcids (cpus k1 c)"
    proof (cases x)
      case (DoActivate c space)
      with p have a: "activate k0 c space = Inr k1" by simp
      show ?thesis
      proof
        fix c'
        show "havePcids (cpus k1 c')"
          using activate_effect(1) [OF a, of c'] activate_effect(3) [OF a] Cons.prems(1)
          by (cases "c' = c") simp_all
      qed
    next
      case (DoSubmit sp node a sz)
      with p have "cpus k1 = cpus k0" by (auto simp: submitShootdown_cpus with_node_def)
      then show ?thesis using Cons.prems(1) by simp
    next
      case (DoShootdown c b)
      with p have "shootdown k0 c b = Inr k1" by simp
      then show ?thesis using shootdown_effect(2) Cons.prems(1) by simp
    next
      case (DoDrop sp)
      with p have "cpus k1 = cpus k0" by auto
      then show ?thesis using Cons.prems(1) by simp
    qed
    then show ?case using r by (rule Cons.IH)
  qed
  have "\<forall>c. havePcids (cpus (boot n True) c)" by (simp add: boot_def)
  from g [OF this assms] show ?thesis by simp
qed

text \<open>
  The sequence numbers of \<open>rebind\<close> and \<open>submitShootdown\<close> against the scans'
  test \<open>_sequence > _alreadyShotSequence\<close>: a binding that has just been
  rebound records the space's \<open>_shootSequence\<close>, and that is the very number
  the next submitted node receives, so for that binding the test fails on the
  node, although the node counted the binding in \<open>_bindingsToShoot\<close>.
\<close>

lemma rebind_records_next_sequence:
  assumes "rebind k c b space = Inr k1"
      and "grab k (boundSpace (binding k c b)) \<noteq> Some space"
  shows "boundSpace (binding k1 c b) = Some space
       \<and> alreadyShotSequence (binding k1 c b) = shootSequence (spaces k1 space)"
  using assms
  by (auto simp: rebind_def Let_def kernel_update_defs
           split: if_splits option.splits prod.splits)

lemma submitShootdown_hands_out_sequence:
  assumes "numBindings (spaces k sp) \<noteq> 0"
  shows "sequence (nodes (submitShootdown k sp node) node) = shootSequence (spaces k sp)
       \<and> bindingsToShoot (nodes (submitShootdown k sp node) node) = numBindings (spaces k sp)
       \<and> shootQueue (spaces (submitShootdown k sp node) sp) = shootQueue (spaces k sp) @ [node]
       \<and> cpus (submitShootdown k sp node) = cpus k"
  using assms by (simp add: submitShootdown_def Let_def kernel_update_defs)

lemma first_node_after_rebind_not_behind:
  assumes r: "rebind k c b space = Inr k1"
      and n: "grab k (boundSpace (binding k c b)) \<noteq> Some space"
      and nb: "numBindings (spaces k1 space) \<noteq> 0"
  shows "\<not> sequence (nodes (submitShootdown k1 space node) node)
            > alreadyShotSequence (binding (submitShootdown k1 space node) c b)"
  using rebind_records_next_sequence [OF r n] submitShootdown_hands_out_sequence [OF nb, of node]
  by (simp add: binding_def)

text \<open>Unfolding everything runs the binding operations on concrete kernels.\<close>

lemmas run_defs = boot_def new_PageSpace_def new_PageBinding_def new_PageContext_def
  activate_def activate_loop.simps rebind_and_makePrimary_def rebind_def makePrimary_def
  shootdown_def submitShootdown_def grab_def binding_def set_binding_def set_space_def
  emit_def maxPcidCount_def with_node_def shootdown_ipi_def invalidations_def
  progress_values_def kPageSize_def bindings_behind_def Let_def upt_rec

lemmas scenario_defs = scenario_bound_def scenario_submitted_def scenario_ipi_def
  scenario_rebound_def scenario_second_def scenario_warm_def bound_to_def
  stamps_behind_clock_def only_first_bound_def

text \<open>What \<open>rebind\<close> followed by \<open>makePrimary\<close> does to a binding not bound to \<open>space\<close>.\<close>

lemma rebind_and_makePrimary_effect:
  assumes a: "rebind_and_makePrimary k c b space = Inr k'"
      and nb: "\<not> bound_to k c b space"
  shows "primaryBinding (pageContext (cpus k' c)) = Some b"
    and "bound_to k' c b space"
    and "primaryStamp (binding k' c b) = nextStamp (pageContext (cpus k c))"
    and "\<And>j. j \<noteq> b \<Longrightarrow> binding k' c j = binding k c j"
proof -
  from a obtain k1 where r: "rebind k c b space = Inr k1"
      and p: "makePrimary k1 c b = Inr k'"
    by (auto simp: rebind_and_makePrimary_def split: sum.splits)
  note R = rebind_effect [OF r]
  note P = makePrimary_effect [OF p]
  from R(6) nb have x: "boundSpace (binding k1 c b) = Some space" "wasRebound (binding k1 c b)"
    by (auto simp: bound_to_def)
  then have "grab k1 (boundSpace (binding k1 c b)) \<noteq> None" using P(8) by simp
  then have al: "alive k1 space" using x(1) by (auto simp: grab_def split: if_splits)
  show "primaryBinding (pageContext (cpus k' c)) = Some b" by (simp add: P(6))
  show "bound_to k' c b space"
    using al x(1) by (simp add: bound_to_def grab_Some_iff P(2) P(4))
  show "primaryStamp (binding k' c b) = nextStamp (pageContext (cpus k c))"
    by (simp add: P(4) R(4))
  fix j assume "j \<noteq> b"
  then show "binding k' c j = binding k c j" by (simp add: P(5) R(3))
qed

text \<open>The state \<open>scenario_cycled\<close>, evaluated.\<close>

lemma cycled_have_pcids: "havePcids (cpus scenario_cycled 0)"
    by (simp add: scenario_cycled_def run_defs)
lemma cycled_stamps: "map (\<lambda>b. primaryStamp (binding scenario_cycled 0 b)) [0, 1, 2, 3, 4, 5, 6, 7]
       = [9, 2, 3, 4, 5, 6, 7, 8]"
    by (simp add: scenario_cycled_def run_defs)
lemma cycled_not_bound: "\<forall>i < maxPcidCount. \<not> bound_to scenario_cycled 0 i 20"
    by (simp add: scenario_cycled_def bound_to_def run_defs)
lemma cycled_activate_returns: "activate scenario_cycled 0 20 = Inr (projr (activate scenario_cycled 0 20))"
    by (simp add: scenario_cycled_def run_defs)

section \<open>Bindings and shootdown: the properties\<close>

text \<open>
  C1 does not hold of the code. \<open>rebind\<close> sets \<open>_alreadyShotSequence\<close> to the
  space's \<open>_shootSequence\<close>, which is the sequence number that the next
  \<open>submitShootdown\<close> hands out (\<open>node->_sequence = _shootSequence++\<close>), and both
  backward scans visit a node only while \<open>_sequence > _alreadyShotSequence\<close>.
  The first node submitted after a binding was bound is therefore never visited
  by that binding. In the run below the binding of CPU 0 is bound to space 5
  when node 7 is submitted. Handling the IPI leaves node 7 queued with its
  count at 1 and no callback; so does rebinding away from space 5 (after which
  no binding is left to decrement it); and a second node 8 submitted later is
  completed by the next IPI while node 7 stays queued.
\<close>

theorem submitted_node_never_completes:
  "scenario_ipi = Inr (projr scenario_ipi)
   \<and> shootQueue (spaces (projr scenario_ipi) 5) = [7]
   \<and> bindingsToShoot (nodes (projr scenario_ipi) 7) = 1
   \<and> ShotDown 7 \<notin> set (trace (projr scenario_ipi))
   \<and> scenario_rebound = Inr (projr scenario_rebound)
   \<and> bound_to (projr scenario_rebound) 0 0 6
   \<and> numBindings (spaces (projr scenario_rebound) 5) = 0
   \<and> shootQueue (spaces (projr scenario_rebound) 5) = [7]
   \<and> bindingsToShoot (nodes (projr scenario_rebound) 7) = 1
   \<and> ShotDown 7 \<notin> set (trace (projr scenario_rebound))
   \<and> scenario_second = Inr (projr scenario_second)
   \<and> shootQueue (spaces (projr scenario_second) 5) = [7]
   \<and> ShotDown 8 \<in> set (trace (projr scenario_second))
   \<and> ShotDown 7 \<notin> set (trace (projr scenario_second))"
  by (simp add: scenario_defs run_defs)

text \<open>
  C2 does not hold of the code, by the same off-by-one: right after node 7 was
  submitted on space 5, with the binding of CPU 0 bound to it, the node is
  queued with \<open>_bindingsToShoot = 1\<close>, but no binding bound to space 5 has
  \<open>_alreadyShotSequence < _sequence\<close> (both are 0).
\<close>

theorem shoot_count_mismatch:
  "scenario_bound = Inr (projr scenario_bound)
   \<and> bound_to scenario_submitted 0 0 5
   \<and> shootQueue (spaces scenario_submitted 5) = [7]
   \<and> sequence (nodes scenario_submitted 7) = 0
   \<and> alreadyShotSequence (binding scenario_submitted 0 0) = 0
   \<and> bindingsToShoot (nodes scenario_submitted 7) = 1
   \<and> bindings_behind scenario_submitted 5 7 = 0"
  by (simp add: scenario_defs run_defs)

text \<open>
  C7: \<open>PageSpace::activate(space)\<close> on a CPU with PCIDs, or on one without
  PCIDs on which only the first binding is bound, which is so in every state
  reached from bring-up (\<open>reachable_only_first_bound\<close>). If a binding of the array
  is bound to \<open>space\<close>, the first such binding is made primary and nothing is
  rebound: \<open>activate\<close> is that \<open>makePrimary\<close> call, and when it returns that
  binding is the context's primary binding, is still bound to \<open>space\<close> and
  differs from before only in its stamp, which is the clock's, and its cleared
  \<open>wasRebound\<close> flag, while no space, no node, no binding's bound space and no
  other binding has changed. Otherwise, with PCIDs the binding that is
  rebound and made primary has the smallest \<open>primaryStamp\<close> of the array, and
  without PCIDs it is binding 0; when \<open>activate\<close> returns, that binding is the
  primary binding, is bound to \<open>space\<close> and carries the stamp of the clock, and
  no other binding has changed.
\<close>

theorem activate_choice:
  assumes "havePcids (cpus k c) \<or> only_first_bound k c"
  shows "(\<forall>i < maxPcidCount.
            bound_to k c i space \<and> (\<forall>j < i. \<not> bound_to k c j space) \<longrightarrow>
              activate k c space = makePrimary k c i
            \<and> (\<forall>k'. activate k c space = Inr k' \<longrightarrow>
                  primaryBinding (pageContext (cpus k' c)) = Some i
                \<and> bound_to k' c i space
                \<and> binding k' c i = (binding k c i)\<lparr>wasRebound := False,
                      primaryStamp := nextStamp (pageContext (cpus k c))\<rparr>
                \<and> spaces k' = spaces k \<and> nodes k' = nodes k
                \<and> (\<forall>j. boundSpace (binding k' c j) = boundSpace (binding k c j))
                \<and> (\<forall>j. j \<noteq> i \<longrightarrow> binding k' c j = binding k c j)))
       \<and> ((\<forall>i < maxPcidCount. \<not> bound_to k c i space) \<and> havePcids (cpus k c) \<longrightarrow>
            (\<exists>lru < maxPcidCount.
               (\<forall>j < maxPcidCount. primaryStamp (binding k c lru) \<le> primaryStamp (binding k c j))
             \<and> activate k c space = rebind_and_makePrimary k c lru space
             \<and> (\<forall>k'. activate k c space = Inr k' \<longrightarrow>
                   primaryBinding (pageContext (cpus k' c)) = Some lru
                 \<and> bound_to k' c lru space
                 \<and> primaryStamp (binding k' c lru) = nextStamp (pageContext (cpus k c))
                 \<and> (\<forall>j. j \<noteq> lru \<longrightarrow> binding k' c j = binding k c j))))
       \<and> ((\<forall>i < maxPcidCount. \<not> bound_to k c i space) \<and> \<not> havePcids (cpus k c) \<longrightarrow>
            activate k c space = rebind_and_makePrimary k c 0 space
          \<and> (\<forall>k'. activate k c space = Inr k' \<longrightarrow>
                primaryBinding (pageContext (cpus k' c)) = Some 0
              \<and> bound_to k' c 0 space
              \<and> primaryStamp (binding k' c 0) = nextStamp (pageContext (cpus k c))
              \<and> (\<forall>j. j \<noteq> 0 \<longrightarrow> binding k' c j = binding k c j)))"
proof -
  have found: "activate k c space = makePrimary k c i
            \<and> (\<forall>k'. activate k c space = Inr k' \<longrightarrow>
                  primaryBinding (pageContext (cpus k' c)) = Some i
                \<and> bound_to k' c i space
                \<and> binding k' c i = (binding k c i)\<lparr>wasRebound := False,
                      primaryStamp := nextStamp (pageContext (cpus k c))\<rparr>
                \<and> spaces k' = spaces k \<and> nodes k' = nodes k
                \<and> (\<forall>j. boundSpace (binding k' c j) = boundSpace (binding k c j))
                \<and> (\<forall>j. j \<noteq> i \<longrightarrow> binding k' c j = binding k c j))"
    if i: "i < maxPcidCount"
      and b: "bound_to k c i space \<and> (\<forall>j < i. \<not> bound_to k c j space)" for i
  proof -
    have z: "havePcids (cpus k c) \<or> i = 0"
    proof (rule ccontr)
      assume n: "\<not> (havePcids (cpus k c) \<or> i = 0)"
      with assms i have "boundSpace (binding k c i) = None"
        by (simp add: only_first_bound_def)
      with b show False by (simp add: bound_to_def grab_def)
    qed
    have e: "activate k c space = makePrimary k c i"
      unfolding activate_def
      using i b z by (intro activate_loop_found) (auto simp: bound_to_def)
    have "primaryBinding (pageContext (cpus k' c)) = Some i
                \<and> bound_to k' c i space
                \<and> binding k' c i = (binding k c i)\<lparr>wasRebound := False,
                      primaryStamp := nextStamp (pageContext (cpus k c))\<rparr>
                \<and> spaces k' = spaces k \<and> nodes k' = nodes k
                \<and> (\<forall>j. boundSpace (binding k' c j) = boundSpace (binding k c j))
                \<and> (\<forall>j. j \<noteq> i \<longrightarrow> binding k' c j = binding k c j)"
      if a: "activate k c space = Inr k'" for k'
    proof -
      from a e have m: "makePrimary k c i = Inr k'" by simp
      note P = makePrimary_effect [OF m]
      have 1: "primaryBinding (pageContext (cpus k' c)) = Some i" by (simp add: P(6))
      have 2: "bound_to k' c i space"
        using b by (simp add: bound_to_def grab_Some_iff P(2) P(4))
      have 5: "boundSpace (binding k' c j) = boundSpace (binding k c j)" for j
        using P(4,5) by (cases "j = i") simp_all
      show ?thesis using 1 2 P(4) P(1) P(3) 5 P(5) by simp
    qed
    with e show ?thesis by blast
  qed
  have lru: "\<exists>lru < maxPcidCount.
               (\<forall>j < maxPcidCount. primaryStamp (binding k c lru) \<le> primaryStamp (binding k c j))
             \<and> activate k c space = rebind_and_makePrimary k c lru space
             \<and> (\<forall>k'. activate k c space = Inr k' \<longrightarrow>
                   primaryBinding (pageContext (cpus k' c)) = Some lru
                 \<and> bound_to k' c lru space
                 \<and> primaryStamp (binding k' c lru) = nextStamp (pageContext (cpus k c))
                 \<and> (\<forall>j. j \<noteq> lru \<longrightarrow> binding k' c j = binding k c j))"
    if a: "(\<forall>i < maxPcidCount. \<not> bound_to k c i space) \<and> havePcids (cpus k c)"
  proof -
    have "\<exists>m < maxPcidCount.
           activate_loop k c space 0 0 = rebind_and_makePrimary k c m space
         \<and> primaryStamp (binding k c m) \<le> primaryStamp (binding k c 0)
         \<and> (\<forall>j. 0 \<le> j \<and> j < maxPcidCount \<longrightarrow>
                 primaryStamp (binding k c m) \<le> primaryStamp (binding k c j))"
      using a by (intro activate_loop_lru) (auto simp: bound_to_def maxPcidCount_def)
    then obtain m where m: "m < maxPcidCount"
        "activate k c space = rebind_and_makePrimary k c m space"
        "\<forall>j < maxPcidCount. primaryStamp (binding k c m) \<le> primaryStamp (binding k c j)"
      by (auto simp: activate_def)
    have nb: "\<not> bound_to k c m space" using a m(1) by simp
    have "primaryBinding (pageContext (cpus k' c)) = Some m
                 \<and> bound_to k' c m space
                 \<and> primaryStamp (binding k' c m) = nextStamp (pageContext (cpus k c))
                 \<and> (\<forall>j. j \<noteq> m \<longrightarrow> binding k' c j = binding k c j)"
      if x: "activate k c space = Inr k'" for k'
    proof -
      from x m(2) have y: "rebind_and_makePrimary k c m space = Inr k'" by simp
      show ?thesis using rebind_and_makePrimary_effect [OF y nb] by simp
    qed
    with m show ?thesis by blast
  qed
  have first: "activate k c space = rebind_and_makePrimary k c 0 space
          \<and> (\<forall>k'. activate k c space = Inr k' \<longrightarrow>
                primaryBinding (pageContext (cpus k' c)) = Some 0
              \<and> bound_to k' c 0 space
              \<and> primaryStamp (binding k' c 0) = nextStamp (pageContext (cpus k c))
              \<and> (\<forall>j. j \<noteq> 0 \<longrightarrow> binding k' c j = binding k c j))"
    if a: "(\<forall>i < maxPcidCount. \<not> bound_to k c i space) \<and> \<not> havePcids (cpus k c)"
  proof -
    have e: "activate k c space = rebind_and_makePrimary k c 0 space"
      unfolding activate_def
      using a by (intro activate_loop_no_pcids) (auto simp: bound_to_def maxPcidCount_def)
    have nb: "\<not> bound_to k c 0 space" using a by (simp add: maxPcidCount_def)
    have "primaryBinding (pageContext (cpus k' c)) = Some 0
              \<and> bound_to k' c 0 space
              \<and> primaryStamp (binding k' c 0) = nextStamp (pageContext (cpus k c))
              \<and> (\<forall>j. j \<noteq> 0 \<longrightarrow> binding k' c j = binding k c j)"
      if x: "activate k c space = Inr k'" for k'
    proof -
      from x e have y: "rebind_and_makePrimary k c 0 space = Inr k'" by simp
      show ?thesis using rebind_and_makePrimary_effect [OF y nb] by simp
    qed
    with e show ?thesis by blast
  qed
  show ?thesis using found lru first by blast
qed

theorem activate_choice_witness:
  "havePcids (cpus scenario_cycled 0)
   \<and> map (\<lambda>b. primaryStamp (binding scenario_cycled 0 b)) [0, 1, 2, 3, 4, 5, 6, 7]
       = [9, 2, 3, 4, 5, 6, 7, 8]
   \<and> \<not> (\<exists>i < maxPcidCount. bound_to scenario_cycled 0 i 20)
   \<and> activate scenario_cycled 0 20 = rebind_and_makePrimary scenario_cycled 0 1 20
   \<and> (\<exists>k'. activate scenario_cycled 0 20 = Inr k'
          \<and> primaryBinding (pageContext (cpus k' 0)) = Some 1 \<and> bound_to k' 0 1 20)
   \<and> primaryBinding (pageContext (cpus scenario_switched 0)) = Some 1
   \<and> bound_to scenario_switched 0 0 5
   \<and> activate scenario_switched 0 5 = makePrimary scenario_switched 0 0
   \<and> (\<exists>k'. activate scenario_switched 0 5 = Inr k'
          \<and> primaryBinding (pageContext (cpus k' 0)) = Some 0 \<and> bound_to k' 0 0 5
          \<and> spaces k' = spaces scenario_switched)
   \<and> only_first_bound (boot 1 False) 0
   \<and> \<not> (\<exists>i < maxPcidCount. bound_to (boot 1 False) 0 i 5)
   \<and> activate (boot 1 False) 0 5 = rebind_and_makePrimary (boot 1 False) 0 0 5
   \<and> (\<exists>k'. activate (boot 1 False) 0 5 = Inr k'
          \<and> primaryBinding (pageContext (cpus k' 0)) = Some 0 \<and> bound_to k' 0 0 5)"
proof -
  \<comment> \<open>eight bindings with different stamps, binding 1 the least recently used\<close>
  note a = cycled_have_pcids and st = cycled_stamps and b = cycled_not_bound
    and ok = cycled_activate_returns
  from activate_choice [of scenario_cycled 0 20] a b
  have "\<exists>lru < maxPcidCount.
               (\<forall>j < maxPcidCount. primaryStamp (binding scenario_cycled 0 lru)
                     \<le> primaryStamp (binding scenario_cycled 0 j))
             \<and> activate scenario_cycled 0 20 = rebind_and_makePrimary scenario_cycled 0 lru 20
             \<and> (\<forall>k'. activate scenario_cycled 0 20 = Inr k' \<longrightarrow>
                   primaryBinding (pageContext (cpus k' 0)) = Some lru
                 \<and> bound_to k' 0 lru 20
                 \<and> primaryStamp (binding k' 0 lru) = nextStamp (pageContext (cpus scenario_cycled 0))
                 \<and> (\<forall>j. j \<noteq> lru \<longrightarrow> binding k' 0 j = binding scenario_cycled 0 j))"
    by blast
  then obtain lru where
    l: "lru < maxPcidCount"
       "\<forall>j < maxPcidCount. primaryStamp (binding scenario_cycled 0 lru)
                               \<le> primaryStamp (binding scenario_cycled 0 j)"
       "activate scenario_cycled 0 20 = rebind_and_makePrimary scenario_cycled 0 lru 20"
       "\<forall>k'. activate scenario_cycled 0 20 = Inr k' \<longrightarrow>
                   primaryBinding (pageContext (cpus k' 0)) = Some lru
                 \<and> bound_to k' 0 lru 20
                 \<and> primaryStamp (binding k' 0 lru) = nextStamp (pageContext (cpus scenario_cycled 0))
                 \<and> (\<forall>j. j \<noteq> lru \<longrightarrow> binding k' 0 j = binding scenario_cycled 0 j)"
    by blast
  have "lru < 8" using l(1) by (simp add: maxPcidCount_def)
  then consider "lru = 0" | "lru = 1" | "lru = 2" | "lru = 3" | "lru = 4" | "lru = 5"
    | "lru = 6" | "lru = 7" by linarith
  moreover have "primaryStamp (binding scenario_cycled 0 lru) \<le> 2"
    using l(2) [rule_format, of 1] st by (simp add: maxPcidCount_def)
  ultimately have l1: "lru = 1" using st by cases simp_all
  have 1: "activate scenario_cycled 0 20 = rebind_and_makePrimary scenario_cycled 0 1 20"
    using l(3) l1 by simp
  have "primaryBinding (pageContext (cpus (projr (activate scenario_cycled 0 20)) 0)) = Some 1
      \<and> bound_to (projr (activate scenario_cycled 0 20)) 0 1 20"
    using l(4) [rule_format, OF ok] by (simp add: l1)
  with ok have 2: "\<exists>k'. activate scenario_cycled 0 20 = Inr k'
          \<and> primaryBinding (pageContext (cpus k' 0)) = Some 1 \<and> bound_to k' 0 1 20"
    by (intro exI [of _ "projr (activate scenario_cycled 0 20)"] conjI) blast+
  \<comment> \<open>space 5 is bound to binding 0 while binding 1 is primary\<close>
  have c: "havePcids (cpus scenario_switched 0)"
          "primaryBinding (pageContext (cpus scenario_switched 0)) = Some 1"
          "bound_to scenario_switched 0 0 5"
    by (simp_all add: scenario_switched_def bound_to_def run_defs)
  have ok2: "activate scenario_switched 0 5 = Inr (projr (activate scenario_switched 0 5))"
    by (simp add: scenario_switched_def run_defs)
  have g: "0 < maxPcidCount" by (simp add: maxPcidCount_def)
  have pre: "bound_to scenario_switched 0 0 5
           \<and> (\<forall>j < 0. \<not> bound_to scenario_switched 0 j 5)" using c(3) by simp
  from activate_choice [of scenario_switched 0 5] c(1)
  have "\<forall>i < maxPcidCount.
            bound_to scenario_switched 0 i 5
          \<and> (\<forall>j < i. \<not> bound_to scenario_switched 0 j 5) \<longrightarrow>
              activate scenario_switched 0 5 = makePrimary scenario_switched 0 i
            \<and> (\<forall>k'. activate scenario_switched 0 5 = Inr k' \<longrightarrow>
                  primaryBinding (pageContext (cpus k' 0)) = Some i
                \<and> bound_to k' 0 i 5
                \<and> spaces k' = spaces scenario_switched
                \<and> (\<forall>j. boundSpace (binding k' 0 j) = boundSpace (binding scenario_switched 0 j))
                \<and> (\<forall>j. j \<noteq> i \<longrightarrow> binding k' 0 j = binding scenario_switched 0 j))"
    by blast
  from this [rule_format, OF g pre]
  have f: "activate scenario_switched 0 5 = makePrimary scenario_switched 0 0"
    and f2: "\<forall>k'. activate scenario_switched 0 5 = Inr k' \<longrightarrow>
                  primaryBinding (pageContext (cpus k' 0)) = Some 0
                \<and> bound_to k' 0 0 5
                \<and> spaces k' = spaces scenario_switched
                \<and> (\<forall>j. boundSpace (binding k' 0 j) = boundSpace (binding scenario_switched 0 j))
                \<and> (\<forall>j. j \<noteq> 0 \<longrightarrow> binding k' 0 j = binding scenario_switched 0 j)"
    by blast+
  have "primaryBinding (pageContext (cpus (projr (activate scenario_switched 0 5)) 0)) = Some 0
      \<and> bound_to (projr (activate scenario_switched 0 5)) 0 0 5
      \<and> spaces (projr (activate scenario_switched 0 5)) = spaces scenario_switched"
    using f2 [rule_format, OF ok2] by blast
  with ok2 have 4: "\<exists>k'. activate scenario_switched 0 5 = Inr k'
          \<and> primaryBinding (pageContext (cpus k' 0)) = Some 0 \<and> bound_to k' 0 0 5
          \<and> spaces k' = spaces scenario_switched"
    by (intro exI [of _ "projr (activate scenario_switched 0 5)"] conjI) blast+
  \<comment> \<open>a CPU without PCIDs after bring-up\<close>
  have d: "only_first_bound (boot 1 False) 0"
    by (simp add: only_first_bound_def boot_def binding_def new_PageBinding_def)
  have e: "\<forall>i < maxPcidCount. \<not> bound_to (boot 1 False) 0 i 5"
    by (simp add: bound_to_def boot_def binding_def new_PageBinding_def grab_def)
  have h: "\<not> havePcids (cpus (boot 1 False) 0)" by (simp add: boot_def)
  have ok3: "activate (boot 1 False) 0 5 = Inr (projr (activate (boot 1 False) 0 5))"
    by (simp add: run_defs)
  from activate_choice [of "boot 1 False" 0 5] d e h
  have n: "activate (boot 1 False) 0 5 = rebind_and_makePrimary (boot 1 False) 0 0 5"
    and n2: "\<forall>k'. activate (boot 1 False) 0 5 = Inr k' \<longrightarrow>
                primaryBinding (pageContext (cpus k' 0)) = Some 0
              \<and> bound_to k' 0 0 5
              \<and> primaryStamp (binding k' 0 0) = nextStamp (pageContext (cpus (boot 1 False) 0))
              \<and> (\<forall>j. j \<noteq> 0 \<longrightarrow> binding k' 0 j = binding (boot 1 False) 0 j)"
    by blast+
  have "primaryBinding (pageContext (cpus (projr (activate (boot 1 False) 0 5)) 0)) = Some 0
      \<and> bound_to (projr (activate (boot 1 False) 0 5)) 0 0 5"
    using n2 [rule_format, OF ok3] by blast
  with ok3 have 6: "\<exists>k'. activate (boot 1 False) 0 5 = Inr k'
          \<and> primaryBinding (pageContext (cpus k' 0)) = Some 0 \<and> bound_to k' 0 0 5"
    by (intro exI [of _ "projr (activate (boot 1 False) 0 5)"] conjI) blast+
  have nb2: "\<not> (\<exists>i < maxPcidCount. bound_to (boot 1 False) 0 i 5)" using e by blast
  have nb1: "\<not> (\<exists>i < maxPcidCount. bound_to scenario_cycled 0 i 20)" using b by blast
  show ?thesis using a st nb1 1 2 c(2) c(3) f 4 d nb2 n 6 by (intro conjI)
qed

text \<open>
  C8: for a space with \<open>numBindings = 0\<close>, \<open>submitShootdown(node)\<close> takes and
  releases the locks and then calls the node's callback, all before it returns
  (the trace grows by exactly these five events, the callback last); it sends
  no IPI, assigns no sequence number (no node changes) and enqueues nothing (no
  space changes).
\<close>

theorem submitShootdown_no_bindings:
  assumes "numBindings (spaces k sp) = 0"
  shows "submitShootdown k sp node =
           emit k [Acquire IrqMutex, Acquire (SpaceMutex sp),
                   Release (SpaceMutex sp), Release IrqMutex, ShotDown node]
       \<and> trace (submitShootdown k sp node) =
           trace k @ [Acquire IrqMutex, Acquire (SpaceMutex sp),
                      Release (SpaceMutex sp), Release IrqMutex, ShotDown node]
       \<and> spaces (submitShootdown k sp node) = spaces k
       \<and> nodes (submitShootdown k sp node) = nodes k
       \<and> cpus (submitShootdown k sp node) = cpus k"
  using assms by (simp add: submitShootdown_def Let_def emit_def)

theorem submitShootdown_no_bindings_witness:
  "numBindings (spaces (boot 1 True) 5) = 0
   \<and> trace (submitShootdown (boot 1 True) 5 7) =
       [Acquire IrqMutex, Acquire (SpaceMutex 5), Release (SpaceMutex 5),
        Release IrqMutex, ShotDown 7]
   \<and> shootQueue (spaces (submitShootdown (boot 1 True) 5 7) 5) = []
   \<and> shootSequence (spaces (submitShootdown (boot 1 True) 5 7) 5) = 0"
proof -
  have n: "numBindings (spaces (boot 1 True) 5) = 0"
    by (simp add: boot_def new_PageSpace_def)
  have tr: "trace (boot 1 True) = []" by (simp add: boot_def)
  have sp: "spaces (boot 1 True) 5 = new_PageSpace 0" by (simp add: boot_def)
  from submitShootdown_no_bindings [OF n, of 7]
  have "trace (submitShootdown (boot 1 True) 5 7) =
          trace (boot 1 True) @ [Acquire IrqMutex, Acquire (SpaceMutex 5),
            Release (SpaceMutex 5), Release IrqMutex, ShotDown 7]"
    and "spaces (submitShootdown (boot 1 True) 5 7) = spaces (boot 1 True)"
    by blast+
  then show ?thesis using n tr sp by (simp add: new_PageSpace_def)
qed

text \<open>
  C10: when \<open>PageSpace::activate(space)\<close> returns on a CPU whose LRU clock is
  ahead of all stamps (so in every state reached from bring-up before the 64-bit
  clock could wrap, \<open>reachable_stamps_behind_clock\<close>), the context's primary
  binding is a binding of the array
  that is bound to \<open>space\<close>, whose \<open>wasRebound\<close> flag is clear, and whose
  \<open>primaryStamp\<close> is strictly greater than that of every other binding of the
  array.
\<close>

theorem activate_postcondition:
  assumes a: "activate k c space = Inr k'"
      and sb: "stamps_behind_clock k c"
  shows "\<exists>b < maxPcidCount.
           primaryBinding (pageContext (cpus k' c)) = Some b
         \<and> bound_to k' c b space
         \<and> \<not> wasRebound (binding k' c b)
         \<and> (\<forall>j < maxPcidCount. j \<noteq> b \<longrightarrow>
               primaryStamp (binding k' c j) < primaryStamp (binding k' c b))"
proof -
  from sb have st: "\<forall>j < maxPcidCount.
      primaryStamp (binding k c j) < nextStamp (pageContext (cpus k c))"
    by (simp add: stamps_behind_clock_def)
  have "(\<exists>i < maxPcidCount. bound_to k c i space
            \<and> activate k c space = makePrimary k c i)
       \<or> (\<exists>m < maxPcidCount. activate k c space = rebind_and_makePrimary k c m space)"
    unfolding activate_def by (rule activate_loop_result) (simp add: maxPcidCount_def)
  then show ?thesis
  proof (elim disjE exE conjE)
    fix i
    assume i: "i < maxPcidCount" "bound_to k c i space"
       and e: "activate k c space = makePrimary k c i"
    from a e have m: "makePrimary k c i = Inr k'" by simp
    show ?thesis using makePrimary_post [OF m i(2)] st i(1) by blast
  next
    fix m
    assume i: "m < maxPcidCount"
       and e: "activate k c space = rebind_and_makePrimary k c m space"
    from a e obtain k1 where r: "rebind k c m space = Inr k1"
        and p: "makePrimary k1 c m = Inr k'"
      by (auto simp: rebind_and_makePrimary_def split: sum.splits)
    note R = rebind_effect [OF r]
    have bd: "bound_to k1 c m space"
    proof -
      from R(6) show ?thesis
      proof
        assume "k1 = k \<and> grab k (boundSpace (binding k c m)) = Some space"
        then show ?thesis by (simp add: bound_to_def)
      next
        assume x: "boundSpace (binding k1 c m) = Some space \<and> wasRebound (binding k1 c m)"
        then have "grab k1 (boundSpace (binding k1 c m)) \<noteq> None"
          using makePrimary_effect(8) [OF p] by simp
        then show ?thesis using x by (auto simp: bound_to_def grab_def split: if_splits)
      qed
    qed
    have st1: "\<forall>j < maxPcidCount. j \<noteq> m \<longrightarrow>
                 primaryStamp (binding k1 c j) < nextStamp (pageContext (cpus k1 c))"
      using st R(2,4) by simp
    show ?thesis using makePrimary_post [OF p bd st1] i by blast
  qed
qed

theorem activate_postcondition_witness:
  "activate (boot 1 True) 0 5 = Inr scenario_warm
   \<and> stamps_behind_clock (boot 1 True) 0
   \<and> primaryBinding (pageContext (cpus scenario_warm 0)) = Some 0
   \<and> (\<exists>b < maxPcidCount.
         primaryBinding (pageContext (cpus scenario_warm 0)) = Some b
       \<and> bound_to scenario_warm 0 b 5
       \<and> \<not> wasRebound (binding scenario_warm 0 b))"
proof -
  have a: "activate (boot 1 True) 0 5 = Inr scenario_warm"
    by (simp add: scenario_defs run_defs)
  have s: "stamps_behind_clock (boot 1 True) 0"
    by (simp add: scenario_defs boot_def binding_def new_PageBinding_def new_PageContext_def)
  have p: "primaryBinding (pageContext (cpus scenario_warm 0)) = Some 0"
    by (simp add: scenario_defs run_defs)
  from activate_postcondition [OF a s] show ?thesis using a s p by blast
qed

end
